theory Spec2Isabelle
  imports Main "HOL-Library.Multiset"

begin

section \<open>Lab Four: sequential and task-parallel quicksort\<close>

text \<open>
  The embedding follows \<^verbatim>\<open>Lab Four/main.c\<close>. The array is an \<open>int list\<close>
  (the elements are only compared and swapped). Indices are C \<^verbatim>\<open>int\<close>s of 32 bits:
  they are HOL integers here, and every arithmetic operation on them checks that its
  result fits, a signed overflow being undefined behaviour in C. An array access outside
  the array is undefined behaviour too. Both are error values of the model, so a result
  \<open>Inr\<close> means that the run performed no undefined operation.

  Every function also returns the list of the memory accesses and of the recursive calls
  it performed, in program order.
\<close>

subsection \<open>Errors, events and C arithmetic\<close>

datatype error = OutOfRange int | SignedOverflow

datatype event = Read int | Write int | Call int int | Task int int

text \<open>The indices a run has read or written, and the calls and tasks it has made.\<close>

fun accesses :: "event list \<Rightarrow> int list" where
  "accesses [] = []"
| "accesses (Read k # t) = k # accesses t"
| "accesses (Write k # t) = k # accesses t"
| "accesses (Call l r # t) = accesses t"
| "accesses (Task l r # t) = accesses t"

fun calls :: "event list \<Rightarrow> (int \<times> int) list" where
  "calls [] = []"
| "calls (Read k # t) = calls t"
| "calls (Write k # t) = calls t"
| "calls (Call l r # t) = (l, r) # calls t"
| "calls (Task l r # t) = (l, r) # calls t"

definition INT_MAX :: int where
  "INT_MAX = 2147483647"

definition INT_MIN :: int where
  "INT_MIN = - 2147483648"

text \<open>The value of an \<^verbatim>\<open>int\<close> expression whose mathematical result is \<open>v\<close>.\<close>

definition c_int :: "int \<Rightarrow> error + int" where
  "c_int v = (if INT_MIN \<le> v \<and> v \<le> INT_MAX then Inr v else Inl SignedOverflow)"

text \<open>C's \<^verbatim>\<open>/\<close> truncates towards zero (the divisor is the literal 2 in the source).\<close>

definition c_div :: "int \<Rightarrow> int \<Rightarrow> int" where
  "c_div a b = (if (a < 0) = (b < 0) then \<bar>a\<bar> div \<bar>b\<bar> else - (\<bar>a\<bar> div \<bar>b\<bar>))"

text \<open>\<^verbatim>\<open>arr[k]\<close> as a value and as an assignment target.\<close>

definition rd :: "int list \<Rightarrow> int \<Rightarrow> error + int" where
  "rd arr k = (if 0 \<le> k \<and> k < int (length arr) then Inr (arr ! nat k) else Inl (OutOfRange k))"

definition wr :: "int list \<Rightarrow> int \<Rightarrow> int \<Rightarrow> error + int list" where
  "wr arr k v = (if 0 \<le> k \<and> k < int (length arr) then Inr (arr[nat k := v]) else Inl (OutOfRange k))"

subsection \<open>The partition step (lines 24 to 50, and again 82 to 108)\<close>

text \<open>\<^verbatim>\<open>while (arr[i] < pivot) { i++; }\<close>\<close>

function scan_up :: "int list \<Rightarrow> int \<Rightarrow> int \<Rightarrow> error + (int \<times> event list)" where
  "scan_up arr pivot i =
     (case rd arr i of
        Inl e \<Rightarrow> Inl e
      | Inr v \<Rightarrow>
          if v < pivot then
            (case c_int (i + 1) of
               Inl e \<Rightarrow> Inl e
             | Inr i' \<Rightarrow>
                 (case scan_up arr pivot i' of
                    Inl e \<Rightarrow> Inl e
                  | Inr (k, t) \<Rightarrow> Inr (k, Read i # t)))
          else Inr (i, [Read i]))"
  by pat_completeness auto

text \<open>\<^verbatim>\<open>while (arr[j] > pivot) { j--; }\<close>\<close>

function scan_down :: "int list \<Rightarrow> int \<Rightarrow> int \<Rightarrow> error + (int \<times> event list)" where
  "scan_down arr pivot j =
     (case rd arr j of
        Inl e \<Rightarrow> Inl e
      | Inr v \<Rightarrow>
          if v > pivot then
            (case c_int (j - 1) of
               Inl e \<Rightarrow> Inl e
             | Inr j' \<Rightarrow>
                 (case scan_down arr pivot j' of
                    Inl e \<Rightarrow> Inl e
                  | Inr (k, t) \<Rightarrow> Inr (k, Read j # t)))
          else Inr (j, [Read j]))"
  by pat_completeness auto

text \<open>\<^verbatim>\<open>tmp = arr[i]; arr[i] = arr[j]; arr[j] = tmp;\<close>\<close>

definition swap :: "int list \<Rightarrow> int \<Rightarrow> int \<Rightarrow> error + (int list \<times> event list)" where
  "swap arr i j =
     (case rd arr i of
        Inl e \<Rightarrow> Inl e
      | Inr tmp \<Rightarrow>
          (case rd arr j of
             Inl e \<Rightarrow> Inl e
           | Inr v \<Rightarrow>
               (case wr arr i v of
                  Inl e \<Rightarrow> Inl e
                | Inr arr1 \<Rightarrow>
                    (case wr arr1 j tmp of
                       Inl e \<Rightarrow> Inl e
                     | Inr arr2 \<Rightarrow> Inr (arr2, [Read i, Read j, Write i, Write j])))))"

text \<open>
  The loop \<^verbatim>\<open>while (i <= j) { ... }\<close> of line 32: the two scans, then the swap and the
  two steps when \<^verbatim>\<open>i <= j\<close> still holds, then the loop test again.
\<close>

function partition_loop ::
  "int list \<Rightarrow> int \<Rightarrow> int \<Rightarrow> int \<Rightarrow> error + (int list \<times> int \<times> int \<times> event list)" where
  "partition_loop arr pivot i j =
     (if i \<le> j then
        (case scan_up arr pivot i of
           Inl e \<Rightarrow> Inl e
         | Inr (i1, t1) \<Rightarrow>
             (case scan_down arr pivot j of
                Inl e \<Rightarrow> Inl e
              | Inr (j1, t2) \<Rightarrow>
                  if i1 \<le> j1 then
                    (case swap arr i1 j1 of
                       Inl e \<Rightarrow> Inl e
                     | Inr (arr1, t3) \<Rightarrow>
                         (case c_int (i1 + 1) of
                            Inl e \<Rightarrow> Inl e
                          | Inr i2 \<Rightarrow>
                              (case c_int (j1 - 1) of
                                 Inl e \<Rightarrow> Inl e
                               | Inr j2 \<Rightarrow>
                                   (case partition_loop arr1 pivot i2 j2 of
                                      Inl e \<Rightarrow> Inl e
                                    | Inr (arr2, i3, j3, t4) \<Rightarrow>
                                        Inr (arr2, i3, j3, t1 @ t2 @ t3 @ t4)))))
                  else
                    (case partition_loop arr pivot i1 j1 of
                       Inl e \<Rightarrow> Inl e
                     | Inr (arr2, i3, j3, t4) \<Rightarrow> Inr (arr2, i3, j3, t1 @ t2 @ t4))))
      else Inr (arr, i, j, []))"
  by pat_completeness auto

text \<open>
  Lines 24 to 50: \<^verbatim>\<open>i = left; j = right; pivot = arr[(left + right) / 2];\<close> and the
  loop. The result is the array and the final \<^verbatim>\<open>i\<close> and \<^verbatim>\<open>j\<close>. Lines 82 to 108 of
  \<^verbatim>\<open>QuickSort_Parallel\<close> are the same text.
\<close>

definition partition_step ::
  "int list \<Rightarrow> int \<Rightarrow> int \<Rightarrow> error + (int list \<times> int \<times> int \<times> event list)" where
  "partition_step arr left right =
     (case c_int (left + right) of
        Inl e \<Rightarrow> Inl e
      | Inr s \<Rightarrow>
          (case rd arr (c_div s 2) of
             Inl e \<Rightarrow> Inl e
           | Inr pivot \<Rightarrow>
               (case partition_loop arr pivot left right of
                  Inl e \<Rightarrow> Inl e
                | Inr (arr1, i, j, t) \<Rightarrow> Inr (arr1, i, j, Read (c_div s 2) # t))))"

subsection \<open>The two sorters\<close>

text \<open>
  \<^verbatim>\<open>static const long Cut_Off = 10000;\<close>
\<close>

definition Cut_Off :: int where
  "Cut_Off = 10000"

text \<open>A recursive call, with the event of the call put in front of what the call did.\<close>

definition logged :: "event \<Rightarrow> error + (int list \<times> event list) \<Rightarrow> error + (int list \<times> event list)" where
  "logged ev res = (case res of Inl e \<Rightarrow> Inl e | Inr (arr, t) \<Rightarrow> Inr (arr, ev # t))"

text \<open>
  \<^verbatim>\<open>QuickSort\<close>, lines 22 to 62: the partition step, then the two guarded recursive
  calls, each on the array the previous statement left.
\<close>

function QuickSort :: "int list \<Rightarrow> int \<Rightarrow> int \<Rightarrow> error + (int list \<times> event list)" where
  "QuickSort arr left right =
     (case partition_step arr left right of
        Inl e \<Rightarrow> Inl e
      | Inr (arr1, i, j, t0) \<Rightarrow>
          (case (if left < j then logged (Call left j) (QuickSort arr1 left j)
                 else Inr (arr1, [])) of
             Inl e \<Rightarrow> Inl e
           | Inr (arr2, t1) \<Rightarrow>
               (case (if i < right then logged (Call i right) (QuickSort arr2 i right)
                      else Inr (arr2, [])) of
                  Inl e \<Rightarrow> Inl e
                | Inr (arr3, t2) \<Rightarrow> Inr (arr3, t0 @ t1 @ t2))))"
  by pat_completeness auto

text \<open>
  \<^verbatim>\<open>QuickSort_Parallel\<close>, lines 80 to 139. The difference \<^verbatim>\<open>right - left\<close> is an
  \<^verbatim>\<open>int\<close>, compared with the \<^verbatim>\<open>long\<close> \<^verbatim>\<open>Cut_Off\<close>. Below the cutoff the calls are the
  guarded calls of \<^verbatim>\<open>QuickSort\<close>. From the cutoff on, the two calls are OpenMP tasks and
  have no guard. The embedding is sequential: a task runs to its end where it is created,
  one of the schedules OpenMP allows. What other schedules do is outside the embedding.
\<close>

function QuickSort_Parallel ::
  "int list \<Rightarrow> int \<Rightarrow> int \<Rightarrow> error + (int list \<times> event list)" where
  "QuickSort_Parallel arr left right =
     (case partition_step arr left right of
        Inl e \<Rightarrow> Inl e
      | Inr (arr1, i, j, t0) \<Rightarrow>
          (case c_int (right - left) of
             Inl e \<Rightarrow> Inl e
           | Inr d \<Rightarrow>
               if d < Cut_Off then
                 (case (if left < j then logged (Call left j) (QuickSort_Parallel arr1 left j)
                        else Inr (arr1, [])) of
                    Inl e \<Rightarrow> Inl e
                  | Inr (arr2, t1) \<Rightarrow>
                      (case (if i < right
                             then logged (Call i right) (QuickSort_Parallel arr2 i right)
                             else Inr (arr2, [])) of
                         Inl e \<Rightarrow> Inl e
                       | Inr (arr3, t2) \<Rightarrow> Inr (arr3, t0 @ t1 @ t2)))
               else
                 (case logged (Task left j) (QuickSort_Parallel arr1 left j) of
                    Inl e \<Rightarrow> Inl e
                  | Inr (arr2, t1) \<Rightarrow>
                      (case logged (Task i right) (QuickSort_Parallel arr2 i right) of
                         Inl e \<Rightarrow> Inl e
                       | Inr (arr3, t2) \<Rightarrow> Inr (arr3, t0 @ t1 @ t2)))))"
  by pat_completeness auto

text \<open>
  \<^verbatim>\<open>sort_s\<close> and \<^verbatim>\<open>sort_p\<close>, lines 65 to 71 and 143 to 161. The source fixes
  \<^verbatim>\<open>static const long Num_To_Sort = 1000000\<close>; it is a parameter here, so that arrays of
  other lengths can be sorted. The initialisation \<^verbatim>\<open>const int rightStart = Num_To_Sort - 1\<close>
  converts a \<^verbatim>\<open>long\<close> to an \<^verbatim>\<open>int\<close>, which keeps the low 32 bits. The parallel region
  of \<^verbatim>\<open>sort_p\<close> runs its \<^verbatim>\<open>single\<close> block once.
\<close>

definition to_int :: "int \<Rightarrow> int" where
  "to_int v = signed_take_bit 31 v"

definition sort_s :: "int \<Rightarrow> int list \<Rightarrow> error + (int list \<times> event list)" where
  "sort_s Num_To_Sort arr =
     (let leftStart = 0; rightStart = to_int (Num_To_Sort - 1)
      in QuickSort arr leftStart rightStart)"

definition sort_p :: "int \<Rightarrow> int list \<Rightarrow> error + (int list \<times> event list)" where
  "sort_p Num_To_Sort arr =
     (let leftStart = 0; rightStart = to_int (Num_To_Sort - 1)
      in QuickSort_Parallel arr leftStart rightStart)"

subsection \<open>Predicates for the proofs\<close>

text \<open>The elements of \<open>arr\<close> at the indices \<open>l..r\<close>, in order.\<close>

definition slice :: "int list \<Rightarrow> int \<Rightarrow> int \<Rightarrow> int list" where
  "slice arr l r = take (nat (r - l + 1)) (drop (nat l) arr)"

text \<open>
  The invariant of the loop of line 32 at its test, for the range \<open>left..right\<close> and the
  pivot value \<open>p\<close>: everything before \<open>i\<close> is at most \<open>p\<close>, everything after
  \<open>j\<close> is at least \<open>p\<close>, and while \<open>i \<le> j\<close> each scan has an element of the range
  that stops it. Then what holds when the loop has ended.
\<close>

definition part_inv :: "int \<Rightarrow> int \<Rightarrow> int \<Rightarrow> int list \<Rightarrow> int \<Rightarrow> int \<Rightarrow> bool" where
  "part_inv left right p arr i j \<longleftrightarrow>
     0 \<le> left \<and> right < int (length arr) \<and>
     left \<le> i \<and> i \<le> right + 1 \<and> left - 1 \<le> j \<and> j \<le> right \<and>
     (\<forall>n. left \<le> int n \<and> int n < i \<longrightarrow> arr ! n \<le> p) \<and>
     (\<forall>n. j < int n \<and> int n \<le> right \<longrightarrow> p \<le> arr ! n) \<and>
     (i \<le> j \<longrightarrow> (\<exists>n. i \<le> int n \<and> int n \<le> right \<and> p \<le> arr ! n)
               \<and> (\<exists>n. left \<le> int n \<and> int n \<le> j \<and> arr ! n \<le> p))"

definition part_post ::
  "int \<Rightarrow> int \<Rightarrow> int \<Rightarrow> int list \<Rightarrow> int \<Rightarrow> int \<Rightarrow> int list \<Rightarrow> int \<Rightarrow> int \<Rightarrow> event list \<Rightarrow> bool" where
  "part_post left right p arr i j a i' j' t \<longleftrightarrow>
     j' < i' \<and> i \<le> i' \<and> j' \<le> j \<and> i' \<le> right + 1 \<and> left - 1 \<le> j' \<and>
     (i \<le> j \<longrightarrow> i - 1 \<le> j' \<and> i' \<le> j + 1) \<and>
     (j < i \<longrightarrow> i' = i \<and> j' = j) \<and>
     (\<forall>m. i \<le> m \<and> m \<le> j \<and> arr ! nat m = p \<longrightarrow> min i (m - 1) \<le> j' \<and> i' \<le> max j (m + 1)) \<and>
     length a = length arr \<and> mset a = mset arr \<and>
     (\<forall>n. int n < i \<or> j < int n \<longrightarrow> a ! n = arr ! n) \<and>
     (\<forall>n. left \<le> int n \<and> int n < i' \<longrightarrow> a ! n \<le> p) \<and>
     (\<forall>n. j' < int n \<and> int n \<le> right \<longrightarrow> p \<le> a ! n) \<and>
     set (accesses t) \<subseteq> {left..right} \<and> calls t = []"

text \<open>
  What a sorter called on \<open>l..r\<close> has done to the array: a permutation that leaves
  every element outside \<open>l..r\<close> where it was and puts the range in order.
\<close>

definition qs_post :: "int \<Rightarrow> int \<Rightarrow> int list \<Rightarrow> int list \<Rightarrow> bool" where
  "qs_post l r arr a \<longleftrightarrow>
     length a = length arr \<and> mset a = mset arr \<and>
     (\<forall>n. int n < l \<or> r < int n \<longrightarrow> a ! n = arr ! n) \<and>
     (\<forall>m n. l \<le> int m \<and> m \<le> n \<and> int n \<le> r \<longrightarrow> a ! m \<le> a ! n)"

text \<open>The array \<open>a\<close> is \<open>arr\<close> outside the range \<open>l..r\<close>.\<close>

definition unchanged_outside :: "int \<Rightarrow> int \<Rightarrow> int list \<Rightarrow> int list \<Rightarrow> bool" where
  "unchanged_outside l r arr a \<longleftrightarrow>
     length a = length arr \<and> (\<forall>n. int n < l \<or> r < int n \<longrightarrow> a ! n = arr ! n)"

section \<open>Termination, and the facts the claims rest on\<close>

subsection \<open>The scans\<close>

text \<open>
  A scan ends: each step moves the index towards the end of the array it runs to, and a
  read outside the array stops the run.
\<close>

lemma scan_up_total: "All scan_up_dom"
  by (relation "measure (\<lambda>(arr, pivot, i). nat (int (length arr) - i))")
     (auto simp: rd_def c_int_def split: if_splits)

termination scan_up
  by (rule scan_up_total)

lemma scan_down_total: "All scan_down_dom"
  by (relation "measure (\<lambda>(arr, pivot, j). nat (j + 1))")
     (auto simp: rd_def c_int_def split: if_splits)

termination scan_down
  by (rule scan_down_total)

text \<open>What a scan that returns has read, and where it stopped.\<close>

declare scan_up.simps [simp del] scan_down.simps [simp del]

lemma scan_up_Inr:
  "scan_up arr p i = Inr (i', t) \<Longrightarrow>
     i \<le> i' \<and> 0 \<le> i \<and> i' < int (length arr) \<and> (\<forall>k. i \<le> k \<and> k < i' \<longrightarrow> arr ! nat k < p)
     \<and> p \<le> arr ! nat i' \<and> t = map Read [i..i']"
proof (induction arr p i arbitrary: i' t rule: scan_up.induct)
  case (1 arr pivot i)
  show ?case
  proof (cases "arr ! nat i < pivot")
    case True
    with "1.prems" obtain t' where
      rng: "0 \<le> i" "i < int (length arr)" and
      rec: "scan_up arr pivot (i + 1) = Inr (i', t')" and t: "t = Read i # t'"
      by (subst (asm) scan_up.simps)
         (auto simp: rd_def c_int_def split: if_splits sum.splits prod.splits)
    have "rd arr i = Inr (arr ! nat i)" using rng by (simp add: rd_def)
    moreover have "c_int (i + 1) = Inr (i + 1)"
      using "1.prems" rng True by (subst (asm) scan_up.simps)
         (auto simp: rd_def c_int_def split: if_splits sum.splits prod.splits)
    ultimately have IH: "i + 1 \<le> i' \<and> 0 \<le> i + 1 \<and> i' < int (length arr) \<and>
        (\<forall>k. i + 1 \<le> k \<and> k < i' \<longrightarrow> arr ! nat k < pivot) \<and> pivot \<le> arr ! nat i' \<and>
        t' = map Read [i + 1..i']"
      using "1.IH" [OF _ True _ rec] by simp
    have "arr ! nat k < pivot" if "i \<le> k" "k < i'" for k
    proof (cases "k = i")
      case True then show ?thesis using \<open>arr ! nat i < pivot\<close> by simp
    next
      case False then show ?thesis using IH that by simp
    qed
    moreover have "[i..i'] = i # [i + 1..i']" using IH by (simp add: upto_rec1)
    ultimately show ?thesis using IH rng t by simp
  next
    case False
    with "1.prems" show ?thesis
      by (subst (asm) scan_up.simps)
         (auto simp: rd_def c_int_def split: if_splits sum.splits prod.splits)
  qed
qed

lemma scan_down_Inr:
  "scan_down arr p j = Inr (j', t) \<Longrightarrow>
     j' \<le> j \<and> 0 \<le> j' \<and> j < int (length arr) \<and> (\<forall>k. j' < k \<and> k \<le> j \<longrightarrow> p < arr ! nat k)
     \<and> arr ! nat j' \<le> p \<and> t = map Read (rev [j'..j])"
proof (induction arr p j arbitrary: j' t rule: scan_down.induct)
  case (1 arr pivot j)
  show ?case
  proof (cases "arr ! nat j > pivot")
    case True
    with "1.prems" obtain t' where
      rng: "0 \<le> j" "j < int (length arr)" and
      rec: "scan_down arr pivot (j - 1) = Inr (j', t')" and t: "t = Read j # t'"
      by (subst (asm) scan_down.simps)
         (auto simp: rd_def c_int_def split: if_splits sum.splits prod.splits)
    have "rd arr j = Inr (arr ! nat j)" using rng by (simp add: rd_def)
    moreover have "c_int (j - 1) = Inr (j - 1)"
      using "1.prems" rng True by (subst (asm) scan_down.simps)
         (auto simp: rd_def c_int_def split: if_splits sum.splits prod.splits)
    ultimately have IH: "j' \<le> j - 1 \<and> 0 \<le> j' \<and> j - 1 < int (length arr) \<and>
        (\<forall>k. j' < k \<and> k \<le> j - 1 \<longrightarrow> pivot < arr ! nat k) \<and> arr ! nat j' \<le> pivot \<and>
        t' = map Read (rev [j'..j - 1])"
      using "1.IH" [OF _ True _ rec] by simp
    have "pivot < arr ! nat k" if "j' < k" "k \<le> j" for k
    proof (cases "k = j")
      case True then show ?thesis using \<open>arr ! nat j > pivot\<close> by simp
    next
      case False then show ?thesis using IH that by simp
    qed
    moreover have "[j'..j] = [j'..j - 1] @ [j]" using IH by (simp add: upto_rec2)
    ultimately show ?thesis using IH rng t by simp
  next
    case False
    with "1.prems" show ?thesis
      by (subst (asm) scan_down.simps)
         (auto simp: rd_def c_int_def split: if_splits sum.splits prod.splits)
  qed
qed

subsection \<open>The loop of the partition step\<close>

text \<open>
  The loop ends: no scan moves its index backwards, so each pass either leaves
  \<open>i > j\<close> or brings \<open>i\<close> and \<open>j\<close> closer by the two steps after the swap.
\<close>

lemma partition_loop_total: "All partition_loop_dom"
proof (relation "measure (\<lambda>(arr, pivot, i, j). nat (j - i + 1))", goal_cases)
  case 1
  show ?case by simp
next
  case (2 arr pivot i j x1 i1 t1 x2 j1 t2 x3 arr1 t3 i2 j2)
  then show ?case
    using scan_up_Inr [of arr pivot i i1 t1] scan_down_Inr [of arr pivot j j1 t2]
    by (auto simp: c_int_def split: if_splits)
next
  case (3 arr pivot i j x1 i1 t1 x2 j1 t2)
  then show ?case
    using scan_up_Inr [of arr pivot i i1 t1] scan_down_Inr [of arr pivot j j1 t2]
    by auto
qed

termination partition_loop
  by (rule partition_loop_total)

subsection \<open>Facts about a partition step that returns\<close>

declare partition_loop.simps [simp del]

lemma rd_Inr: "rd arr k = Inr v \<longleftrightarrow> 0 \<le> k \<and> k < int (length arr) \<and> v = arr ! nat k"
  by (auto simp: rd_def)

lemma c_int_Inr: "c_int v = Inr w \<longleftrightarrow> INT_MIN \<le> v \<and> v \<le> INT_MAX \<and> w = v"
  by (auto simp: c_int_def)

lemma swap_Inr:
  "swap arr i j = Inr (a, t) \<longleftrightarrow>
     0 \<le> i \<and> i < int (length arr) \<and> 0 \<le> j \<and> j < int (length arr) \<and>
     a = arr[nat i := arr ! nat j, nat j := arr ! nat i] \<and> t = [Read i, Read j, Write i, Write j]"
  by (auto simp: swap_def rd_def wr_def split: sum.splits if_splits)

lemma partition_loop_Inr_cases:
  assumes "partition_loop arr p i j = Inr (a, i', j', t)"
  obtains (exit) "j < i" "a = arr" "i' = i" "j' = j" "t = []"
  | (swap) i1 t1 j1 t2 arr1 t3 t4 where "i \<le> j"
      "scan_up arr p i = Inr (i1, t1)" "scan_down arr p j = Inr (j1, t2)" "i1 \<le> j1"
      "swap arr i1 j1 = Inr (arr1, t3)" "i1 + 1 \<le> INT_MAX" "INT_MIN \<le> j1 - 1"
      "partition_loop arr1 p (i1 + 1) (j1 - 1) = Inr (a, i', j', t4)" "t = t1 @ t2 @ t3 @ t4"
      "j1 - 1 \<le> INT_MAX"
  | (last) i1 t1 j1 t2 t4 where "i \<le> j"
      "scan_up arr p i = Inr (i1, t1)" "scan_down arr p j = Inr (j1, t2)" "j1 < i1"
      "partition_loop arr p i1 j1 = Inr (a, i', j', t4)" "t = t1 @ t2 @ t4"
proof (cases "i \<le> j")
  case False
  with assms have "a = arr \<and> i' = i \<and> j' = j \<and> t = []"
    by (simp add: partition_loop.simps [of arr p i j])
  with False exit show ?thesis by simp
next
  case True
  note eq = assms [unfolded partition_loop.simps [of arr p i j]]
  from eq True obtain i1 t1 where u: "scan_up arr p i = Inr (i1, t1)"
    by (cases "scan_up arr p i") auto
  from eq True u obtain j1 t2 where d: "scan_down arr p j = Inr (j1, t2)"
    by (cases "scan_down arr p j") auto
  show ?thesis
  proof (cases "i1 \<le> j1")
    case False
    with eq True u d obtain t4 where
      "partition_loop arr p i1 j1 = Inr (a, i', j', t4)" "t = t1 @ t2 @ t4"
      by (cases "partition_loop arr p i1 j1") auto
    with False True u d last show ?thesis by simp
  next
    case le: True
    from eq True u d le obtain arr1 t3 where s: "swap arr i1 j1 = Inr (arr1, t3)"
      by (cases "swap arr i1 j1") auto
    from eq True u d le s have c1: "c_int (i1 + 1) = Inr (i1 + 1)"
      by (cases "c_int (i1 + 1)") (auto simp: c_int_Inr)
    from eq True u d le s c1 have c2: "c_int (j1 - 1) = Inr (j1 - 1)"
      by (cases "c_int (j1 - 1)") (auto simp: c_int_Inr)
    from eq True u d le s c1 c2 obtain t4 where
      "partition_loop arr1 p (i1 + 1) (j1 - 1) = Inr (a, i', j', t4)" "t = t1 @ t2 @ t3 @ t4"
      by (cases "partition_loop arr1 p (i1 + 1) (j1 - 1)") auto
    with le True u d s c1 c2 swap show ?thesis by (simp add: c_int_Inr)
  qed
qed

lemma partition_loop_mono:
  "partition_loop arr p i j = Inr (a, i', j', t) \<Longrightarrow> i \<le> i' \<and> j' \<le> j \<and> length a = length arr"
proof (induction "nat (j - i + 1)" arbitrary: arr i j t rule: less_induct)
  case less
  from less.prems show ?case
  proof (cases rule: partition_loop_Inr_cases)
    case exit
    then show ?thesis by simp
  next
    case (swap i1 t1 j1 t2 arr1 t3 t4)
    note u = scan_up_Inr [OF swap(2)] and d = scan_down_Inr [OF swap(3)]
    have "nat (j1 - 1 - (i1 + 1) + 1) < nat (j - i + 1)" using u d swap(1) by auto
    from less.hyps [OF this swap(8)] u d swap(5) show ?thesis by (auto simp: swap_Inr)
  next
    case (last i1 t1 j1 t2 t4)
    note u = scan_up_Inr [OF last(2)] and d = scan_down_Inr [OF last(3)]
    have "nat (j1 - i1 + 1) < nat (j - i + 1)" using u d last(1,4) by auto
    from less.hyps [OF this last(5)] u d show ?thesis by auto
  qed
qed

lemma c_div_2_between: "l \<le> r \<Longrightarrow> l \<le> c_div (l + r) 2 \<and> c_div (l + r) 2 \<le> r"
  by (auto simp: c_div_def)

lemma partition_progress:
  assumes "partition_step arr l r = Inr (a, i, j, t)" and "l \<le> r"
  shows "l < i \<and> j < r"
proof -
  let ?m = "c_div (l + r) 2"
  from assms(1) obtain t' where
    m: "0 \<le> ?m" "?m < int (length arr)" and
    loop: "partition_loop arr (arr ! nat ?m) l r = Inr (a, i, j, t')"
    by (auto simp: partition_step_def c_int_Inr rd_Inr split: sum.splits)
  have mb: "l \<le> ?m" "?m \<le> r" using c_div_2_between [OF assms(2)] by auto
  from loop show ?thesis
  proof (cases rule: partition_loop_Inr_cases)
    case exit
    with assms(2) show ?thesis by simp
  next
    case (swap i1 t1 j1 t2 arr1 t3 t4)
    note u = scan_up_Inr [OF swap(2)] and d = scan_down_Inr [OF swap(3)]
    from partition_loop_mono [OF swap(8)] u d show ?thesis by auto
  next
    case (last i1 t1 j1 t2 t4)
    note u = scan_up_Inr [OF last(2)] and d = scan_down_Inr [OF last(3)]
    have "i1 \<le> ?m" using u mb by (metis linorder_not_less order_less_irrefl)
    moreover have "?m \<le> j1" using d mb by (metis linorder_not_less order_less_irrefl)
    ultimately show ?thesis using last(4) by simp
  qed
qed

lemma partition_empty_range:
  assumes "partition_step arr l r = Inr (a, i, j, t)" and "r < l"
  shows "a = arr \<and> i = l \<and> j = r \<and> t = [Read (c_div (l + r) 2)]"
  using assms
  by (auto simp: partition_step_def c_int_Inr partition_loop.simps [of _ _ l r] split: sum.splits)

lemma partition_smaller:
  assumes "partition_step arr l r = Inr (a, i, j, t)"
  shows "(l < j \<longrightarrow> j < r) \<and> (i < r \<longrightarrow> l < i)"
proof (cases "l \<le> r")
  case True
  from partition_progress [OF assms True] show ?thesis by simp
next
  case False
  with partition_empty_range [OF assms] show ?thesis by simp
qed

subsection \<open>The recursion of the sorters\<close>

text \<open>
  Each recursive call is on a strictly shorter range. The tasks of
  \<^verbatim>\<open>QuickSort_Parallel\<close> have no guard, but they are created on ranges of more than
  \<^verbatim>\<open>Cut_Off\<close> elements only, where \<open>left \<le> right\<close>.
\<close>

lemma QuickSort_total: "All QuickSort_dom"
proof (relation "measure (\<lambda>(arr, left, right). nat (right - left))", goal_cases)
  case 1
  show ?case by simp
next
  case (2 arr left right x1 arr1 x2 i x3 j t0)
  then show ?case using partition_smaller [of arr left right arr1 i j t0] by auto
next
  case (3 arr left right x1 arr1 x2 i x3 j t0 x4 arr2 t1)
  then show ?case using partition_smaller [of arr left right arr1 i j t0] by auto
qed

termination QuickSort
  by (rule QuickSort_total)

lemma QuickSort_Parallel_total: "All QuickSort_Parallel_dom"
proof (relation "measure (\<lambda>(arr, left, right). nat (right - left))", goal_cases)
  case 1
  show ?case by simp
next
  case (2 arr left right x1 arr1 x2 i x3 j t0 d)
  then show ?case using partition_smaller [of arr left right arr1 i j t0] by auto
next
  case (3 arr left right x1 arr1 x2 i x3 j t0 d x4 arr2 t1)
  then show ?case using partition_smaller [of arr left right arr1 i j t0] by auto
next
  case (4 arr left right x1 arr1 x2 i x3 j t0 d)
  then have "left \<le> right" by (auto simp: c_int_Inr Cut_Off_def)
  with 4 show ?case
    using partition_progress [of arr left right arr1 i j t0] by (auto simp: c_int_Inr Cut_Off_def)
next
  case (5 arr left right x1 arr1 x2 i x3 j t0 d x4 arr2 t1)
  then have "left \<le> right" by (auto simp: c_int_Inr Cut_Off_def)
  with 5 show ?case
    using partition_progress [of arr left right arr1 i j t0] by (auto simp: c_int_Inr Cut_Off_def)
qed

termination QuickSort_Parallel
  by (rule QuickSort_Parallel_total)

subsection \<open>A range of one element\<close>

lemma c_div_double: "c_div (k + k) 2 = k" "c_div (2 * k) 2 = k"
  by (auto simp: c_div_def)

lemma scan_up_stop: "0 \<le> i \<Longrightarrow> i < int (length arr) \<Longrightarrow> \<not> arr ! nat i < p \<Longrightarrow> scan_up arr p i = Inr (i, [Read i])"
  by (simp add: scan_up.simps [of arr p i] rd_def)

lemma scan_down_stop: "0 \<le> j \<Longrightarrow> j < int (length arr) \<Longrightarrow> \<not> p < arr ! nat j \<Longrightarrow> scan_down arr p j = Inr (j, [Read j])"
  by (simp add: scan_down.simps [of arr p j] rd_def)

lemma partition_loop_exit: "j < i \<Longrightarrow> partition_loop arr p i j = Inr (arr, i, j, [])"
  by (simp add: partition_loop.simps [of arr p i j])

lemma partition_single:
  assumes "0 \<le> left" "left < int (length arr)" "2 * left \<le> INT_MAX"
  shows "partition_step arr left left =
    Inr (arr, left + 1, left - 1,
      [Read left, Read left, Read left, Read left, Read left, Write left, Write left])"
proof -
  have c: "c_int (left + left) = Inr (left + left)" "c_int (left + 1) = Inr (left + 1)"
      "c_int (left - 1) = Inr (left - 1)"
    using assms by (auto simp: c_int_def INT_MAX_def INT_MIN_def)
  have s: "swap arr left left = Inr (arr, [Read left, Read left, Write left, Write left])"
    using assms by (simp add: swap_Inr)
  show ?thesis
    using assms c s
    by (simp add: partition_step_def c_div_double rd_def partition_loop.simps [of arr _ left left]
        scan_up_stop scan_down_stop partition_loop_exit)
qed

lemma QuickSort_single:
  assumes "0 \<le> left" "left < int (length arr)" "2 * left \<le> INT_MAX"
  shows "QuickSort arr left left =
    Inr (arr, [Read left, Read left, Read left, Read left, Read left, Write left, Write left])"
  using assms by (simp add: QuickSort.simps [of arr left left] partition_single)

lemma QuickSort_Parallel_single:
  assumes "0 \<le> left" "left < int (length arr)" "2 * left \<le> INT_MAX"
  shows "QuickSort_Parallel arr left left =
    Inr (arr, [Read left, Read left, Read left, Read left, Read left, Write left, Write left])"
  using assms by (simp add: QuickSort_Parallel.simps [of arr left left] partition_single c_int_def Cut_Off_def INT_MAX_def INT_MIN_def)

subsection \<open>The partition step on a range of the array\<close>

lemma scan_up_ex:
  assumes "0 \<le> i" "i \<le> k" "k < int (length arr)" "p \<le> arr ! nat k" "k \<le> INT_MAX"
  shows "\<exists>i' t. scan_up arr p i = Inr (i', t) \<and> i' \<le> k"
  using assms
proof (induction "nat (k - i)" arbitrary: i rule: less_induct)
  case less
  show ?case
  proof (cases "arr ! nat i < p")
    case False
    then show ?thesis using less.prems by (auto simp: scan_up_stop)
  next
    case True
    then have "i \<noteq> k" using less.prems by auto
    then have lt: "i < k" using less.prems by simp
    have "nat (k - (i + 1)) < nat (k - i)" using lt by simp
    from less.hyps [OF this] less.prems lt
    obtain i' t where "scan_up arr p (i + 1) = Inr (i', t)" "i' \<le> k" by auto
    then show ?thesis
      using True less.prems lt
      by (simp add: scan_up.simps [of arr p i] rd_def c_int_def INT_MIN_def)
  qed
qed

lemma scan_down_ex:
  assumes "0 \<le> k" "k \<le> j" "j < int (length arr)" "arr ! nat k \<le> p" "j \<le> INT_MAX"
  shows "\<exists>j' t. scan_down arr p j = Inr (j', t) \<and> k \<le> j'"
  using assms
proof (induction "nat (j - k)" arbitrary: j rule: less_induct)
  case less
  show ?case
  proof (cases "p < arr ! nat j")
    case False
    then show ?thesis using less.prems by (auto simp: scan_down_stop)
  next
    case True
    then have "j \<noteq> k" using less.prems by auto
    then have lt: "k < j" using less.prems by simp
    have "nat (j - 1 - k) < nat (j - k)" using lt by simp
    from less.hyps [OF this] less.prems lt
    obtain j' t where "scan_down arr p (j - 1) = Inr (j', t)" "k \<le> j'" by auto
    then show ?thesis
      using True less.prems lt
      by (simp add: scan_down.simps [of arr p j] rd_def c_int_def INT_MIN_def)
  qed
qed

lemma accesses_append [simp]: "accesses (s @ t) = accesses s @ accesses t"
  by (induction s rule: accesses.induct) auto

lemma calls_append [simp]: "calls (s @ t) = calls s @ calls t"
  by (induction s rule: calls.induct) auto

lemma accesses_map_Read [simp]: "accesses (map Read ks) = ks"
  by (induction ks) auto

lemma calls_map_Read [simp]: "calls (map Read ks) = []"
  by (induction ks) auto

lemma part_invD:
  assumes "part_inv left right p arr i j"
  shows "0 \<le> left" "right < int (length arr)" "left \<le> i" "i \<le> right + 1"
    "left - 1 \<le> j" "j \<le> right"
    "\<And>n. left \<le> int n \<Longrightarrow> int n < i \<Longrightarrow> arr ! n \<le> p"
    "\<And>n. j < int n \<Longrightarrow> int n \<le> right \<Longrightarrow> p \<le> arr ! n"
    "i \<le> j \<Longrightarrow> \<exists>n. i \<le> int n \<and> int n \<le> right \<and> p \<le> arr ! n"
    "i \<le> j \<Longrightarrow> \<exists>n. left \<le> int n \<and> int n \<le> j \<and> arr ! n \<le> p"
  using assms by (simp_all add: part_inv_def)

lemma part_postD:
  assumes "part_post left right p arr i j a i' j' t"
  shows "j' < i'" "i \<le> i'" "j' \<le> j" "i' \<le> right + 1" "left - 1 \<le> j'"
    "i \<le> j \<Longrightarrow> i - 1 \<le> j'" "i \<le> j \<Longrightarrow> i' \<le> j + 1"
    "j < i \<Longrightarrow> i' = i" "j < i \<Longrightarrow> j' = j"
    "\<And>m. i \<le> m \<Longrightarrow> m \<le> j \<Longrightarrow> arr ! nat m = p \<Longrightarrow> min i (m - 1) \<le> j' \<and> i' \<le> max j (m + 1)"
    "length a = length arr" "mset a = mset arr"
    "\<And>n. int n < i \<or> j < int n \<Longrightarrow> a ! n = arr ! n"
    "\<And>n. left \<le> int n \<Longrightarrow> int n < i' \<Longrightarrow> a ! n \<le> p"
    "\<And>n. j' < int n \<Longrightarrow> int n \<le> right \<Longrightarrow> p \<le> a ! n"
    "set (accesses t) \<subseteq> {left..right}" "calls t = []"
  using assms unfolding part_post_def by blast+

lemma part_postI:
  assumes "j' < i'" "i \<le> i'" "j' \<le> j" "i' \<le> right + 1" "left - 1 \<le> j'"
    "i \<le> j \<Longrightarrow> i - 1 \<le> j' \<and> i' \<le> j + 1"
    "j < i \<Longrightarrow> i' = i \<and> j' = j"
    "\<And>m. i \<le> m \<Longrightarrow> m \<le> j \<Longrightarrow> arr ! nat m = p \<Longrightarrow> min i (m - 1) \<le> j' \<and> i' \<le> max j (m + 1)"
    "length a = length arr" "mset a = mset arr"
    "\<And>n. int n < i \<or> j < int n \<Longrightarrow> a ! n = arr ! n"
    "\<And>n. left \<le> int n \<Longrightarrow> int n < i' \<Longrightarrow> a ! n \<le> p"
    "\<And>n. j' < int n \<Longrightarrow> int n \<le> right \<Longrightarrow> p \<le> a ! n"
    "set (accesses t) \<subseteq> {left..right}" "calls t = []"
  shows "part_post left right p arr i j a i' j' t"
  unfolding part_post_def using assms by blast

lemma scan_up_InrD:
  assumes "scan_up arr p i = Inr (i', t)"
  shows "i \<le> i'" "0 \<le> i" "i' < int (length arr)" "p \<le> arr ! nat i'" "t = map Read [i..i']"
    "\<And>k. i \<le> k \<Longrightarrow> k < i' \<Longrightarrow> arr ! nat k < p"
  using scan_up_Inr [OF assms] by simp_all

lemma scan_down_InrD:
  assumes "scan_down arr p j = Inr (j', t)"
  shows "j' \<le> j" "0 \<le> j'" "j < int (length arr)" "arr ! nat j' \<le> p"
    "t = map Read (rev [j'..j])"
    "\<And>k. j' < k \<Longrightarrow> k \<le> j \<Longrightarrow> p < arr ! nat k"
  using scan_down_Inr [OF assms] by simp_all

lemma partition_loop_correct:
  assumes "part_inv left right p arr i j"
    and "(right \<le> INT_MAX \<and> (j < INT_MAX \<or> (\<exists>n. i \<le> int n \<and> int n < INT_MAX \<and> p \<le> arr ! n))) \<or>
         (\<exists>res. partition_loop arr p i j = Inr res)"
  shows "\<exists>a i' j' t. partition_loop arr p i j = Inr (a, i', j', t) \<and>
           part_post left right p arr i j a i' j' t"
  using assms
proof (induction "nat (j - i + 1)" arbitrary: arr i j rule: less_induct)
  case less
  note I = part_invD [OF less.prems(1)] and ok = less.prems(2)
  show ?case
  proof (cases "i \<le> j")
    case False
    have "partition_loop arr p i j = Inr (arr, i, j, [])"
      using False by (simp add: partition_loop_exit)
    moreover have "part_post left right p arr i j arr i j []"
    proof (rule part_postI)
      show "j < i" using False by simp
      show "\<And>n. left \<le> int n \<Longrightarrow> int n < i \<Longrightarrow> arr ! n \<le> p" by (rule I(7))
      show "\<And>n. j < int n \<Longrightarrow> int n \<le> right \<Longrightarrow> p \<le> arr ! n" by (rule I(8))
    qed (use False I(3-6) in simp_all)
    ultimately show ?thesis by blast
  next
    case True
    from I(9) [OF True] obtain ku where
      ku: "i \<le> int ku" "int ku \<le> right" "p \<le> arr ! ku" by blast
    from I(10) [OF True] obtain kd where
      kd: "left \<le> int kd" "int kd \<le> j" "arr ! kd \<le> p" by blast
    have "\<exists>i1 t1 j1 t2. scan_up arr p i = Inr (i1, t1) \<and> scan_down arr p j = Inr (j1, t2)"
      using ok
    proof
      assume "right \<le> INT_MAX \<and>
        (j < INT_MAX \<or> (\<exists>n. i \<le> int n \<and> int n < INT_MAX \<and> p \<le> arr ! n))"
      then have b: "right \<le> INT_MAX" by simp
      have "0 \<le> i" "int ku < int (length arr)" "p \<le> arr ! nat (int ku)" "int ku \<le> INT_MAX"
        using I(1-3) ku b by simp_all
      from scan_up_ex [OF this(1) ku(1) this(2-4)]
      obtain i1 t1 where "scan_up arr p i = Inr (i1, t1)" by blast
      moreover
      have "0 \<le> int kd" "j < int (length arr)" "arr ! nat (int kd) \<le> p" "j \<le> INT_MAX"
        using I(2,6) kd b by simp_all
      from scan_down_ex [OF this(1) kd(2) this(2-4)]
      obtain j1 t2 where "scan_down arr p j = Inr (j1, t2)" by blast
      ultimately show ?thesis by blast
    next
      assume "\<exists>res. partition_loop arr p i j = Inr res"
      then obtain a' i' j' t' where "partition_loop arr p i j = Inr (a', i', j', t')"
        by (metis prod_cases4)
      then show ?thesis
      proof (cases rule: partition_loop_Inr_cases)
        case exit
        then show ?thesis using True by simp
      next
        case swap
        then show ?thesis by blast
      next
        case last
        then show ?thesis by blast
      qed
    qed
    then obtain i1 t1 j1 t2 where
      u: "scan_up arr p i = Inr (i1, t1)" and d: "scan_down arr p j = Inr (j1, t2)" by blast
    note U = scan_up_InrD [OF u] and D = scan_down_InrD [OF d]
    have stop_u: "i1 \<le> m" if "i \<le> m" "p \<le> arr ! nat m" for m
    proof (rule ccontr)
      assume "\<not> i1 \<le> m"
      then have "arr ! nat m < p" using U(6) [of m] that(1) by simp
      then show False using that(2) by simp
    qed
    have stop_d: "m \<le> j1" if "m \<le> j" "arr ! nat m \<le> p" for m
    proof (rule ccontr)
      assume "\<not> m \<le> j1"
      then have "p < arr ! nat m" using D(6) [of m] that(1) by simp
      then show False using that(2) by simp
    qed
    have i1k: "i1 \<le> int ku" using stop_u [of "int ku"] ku by simp
    have j1k: "int kd \<le> j1" using stop_d [of "int kd"] kd by simp
    have i1r: "i1 \<le> right" and j1l: "left \<le> j1" using i1k ku(2) j1k kd(1) by simp_all
    have acc12: "set (accesses (t1 @ t2)) \<subseteq> {left..right}"
      using U(1,5) D(1,5) I(3,6) i1r j1l by auto
    have cl12: "calls (t1 @ t2) = []" using U(5) D(5) by simp
    have below: "arr ! n \<le> p" if "left \<le> int n" "int n < i1" for n
    proof (cases "int n < i")
      case True
      then show ?thesis using I(7) that(1) by simp
    next
      case False
      then have "arr ! nat (int n) < p" using U(6) [of "int n"] that(2) by simp
      then show ?thesis by simp
    qed
    have above: "p \<le> arr ! n" if "j1 < int n" "int n \<le> right" for n
    proof (cases "j < int n")
      case True
      then show ?thesis using I(8) that(2) by simp
    next
      case False
      then have "p < arr ! nat (int n)" using D(6) [of "int n"] that(1) by simp
      then show ?thesis by simp
    qed
    have i1j: "i1 \<le> j + 1"
    proof (cases "j = right")
      case True
      then show ?thesis using i1r by simp
    next
      case False
      then have "j + 1 \<le> right" "0 \<le> j + 1" using I(6,1,3) True by simp_all
      then have "p \<le> arr ! nat (j + 1)" using I(8) [of "nat (j + 1)"] by simp
      then show ?thesis using stop_u [of "j + 1"] True by simp
    qed
    have j1i: "i - 1 \<le> j1"
    proof (cases "i = left")
      case True
      then show ?thesis using j1l by simp
    next
      case False
      then have "left \<le> i - 1" "0 \<le> i - 1" using I(3,1) by simp_all
      then have "arr ! nat (i - 1) \<le> p" using I(7) [of "nat (i - 1)"] by simp
      then show ?thesis using stop_d [of "i - 1"] True by simp
    qed
    show ?thesis
    proof (cases "i1 \<le> j1")
      case False
      have "partition_loop arr p i1 j1 = Inr (arr, i1, j1, [])"
        using False by (simp add: partition_loop_exit)
      then have "partition_loop arr p i j = Inr (arr, i1, j1, t1 @ t2 @ [])"
        using True u d False by (simp add: partition_loop.simps [of arr p i j])
      moreover have "part_post left right p arr i j arr i1 j1 (t1 @ t2 @ [])"
      proof (rule part_postI)
        show "j1 < i1" using False by simp
        show "i \<le> i1" by (rule U(1))
        show "j1 \<le> j" by (rule D(1))
        show "i1 \<le> right + 1" using i1r by simp
        show "left - 1 \<le> j1" using j1l by simp
        show "i \<le> j \<Longrightarrow> i - 1 \<le> j1 \<and> i1 \<le> j + 1" using i1j j1i by simp
        show "j < i \<Longrightarrow> i1 = i \<and> j1 = j" using True by simp
        show "min i (m - 1) \<le> j1 \<and> i1 \<le> max j (m + 1)"
          if "i \<le> m" "m \<le> j" "arr ! nat m = p" for m
          using stop_u [of m] stop_d [of m] that False by simp
        show "\<And>n. left \<le> int n \<Longrightarrow> int n < i1 \<Longrightarrow> arr ! n \<le> p" by (rule below)
        show "\<And>n. j1 < int n \<Longrightarrow> int n \<le> right \<Longrightarrow> p \<le> arr ! n" by (rule above)
        show "set (accesses (t1 @ t2 @ [])) \<subseteq> {left..right}" using acc12 by simp
        show "calls (t1 @ t2 @ []) = []" using cl12 by simp
      qed simp_all
      ultimately show ?thesis by blast
    next
      case le: True
      define arr1 where "arr1 = arr[nat i1 := arr ! nat j1, nat j1 := arr ! nat i1]"
      have rng: "0 \<le> i1" "i1 < int (length arr)" "0 \<le> j1" "j1 < int (length arr)"
        using U(1-3) D(1-3) le by simp_all
      have s: "swap arr i1 j1 = Inr (arr1, [Read i1, Read j1, Write i1, Write j1])"
        using rng by (simp add: swap_Inr arr1_def)
      have ok': "i1 + 1 \<le> INT_MAX \<and> j1 - 1 \<le> INT_MAX \<and>
          ((right \<le> INT_MAX \<and> (j1 - 1 < INT_MAX \<or>
              (\<exists>n. i1 + 1 \<le> int n \<and> int n < INT_MAX \<and> p \<le> arr1 ! n))) \<or>
           (\<exists>res. partition_loop arr1 p (i1 + 1) (j1 - 1) = Inr res))"
        using ok
      proof
        assume b: "right \<le> INT_MAX \<and>
          (j < INT_MAX \<or> (\<exists>n. i \<le> int n \<and> int n < INT_MAX \<and> p \<le> arr ! n))"
        have "i1 < INT_MAX"
        proof (cases "j < INT_MAX")
          case True
          then show ?thesis using le D(1) by simp
        next
          case False
          then obtain n where n: "i \<le> int n" "int n < INT_MAX" "p \<le> arr ! n" using b by blast
          then have "i1 \<le> int n" using stop_u [of "int n"] by simp
          then show ?thesis using n(2) by simp
        qed
        moreover have "j1 \<le> INT_MAX" using b D(1) I(6) by simp
        ultimately show ?thesis using b by simp
      next
        assume "\<exists>res. partition_loop arr p i j = Inr res"
        then obtain a' i' j' t' where "partition_loop arr p i j = Inr (a', i', j', t')"
          by (metis prod_cases4)
        then show ?thesis
        proof (cases rule: partition_loop_Inr_cases)
          case exit
          then show ?thesis using True by simp
        next
          case (swap i1' t1' j1' t2' arr1' t3' t4')
          then have "i1' = i1" "j1' = j1" using u d by simp_all
          then have "arr1' = arr1" using swap(5) s by simp
          then show ?thesis using swap(6,8,10) \<open>i1' = i1\<close> \<open>j1' = j1\<close>
            by auto
        next
          case (last i1' t1' j1' t2' t4')
          then show ?thesis using u d le by simp
        qed
      qed
      have c: "c_int (i1 + 1) = Inr (i1 + 1)" "c_int (j1 - 1) = Inr (j1 - 1)"
        using rng ok' by (simp_all add: c_int_def INT_MIN_def)
      have len1: "length arr1 = length arr" by (simp add: arr1_def)
      have mset1: "mset arr1 = mset arr"
        using rng mset_swap [of "nat j1" arr "nat i1"] by (simp add: arr1_def)
      have at_i1: "arr1 ! nat i1 = arr ! nat j1" and at_j1: "arr1 ! nat j1 = arr ! nat i1"
        using rng by (auto simp: arr1_def nth_list_update)
      have other: "arr1 ! n = arr ! n" if "int n \<noteq> i1" "int n \<noteq> j1" for n
        using that rng by (auto simp: arr1_def nth_list_update)
      have below1: "arr1 ! n \<le> p" if "left \<le> int n" "int n < i1 + 1" for n
      proof (cases "int n = i1")
        case True
        then have "n = nat i1" by simp
        then show ?thesis using at_i1 D(4) by simp
      next
        case False
        then show ?thesis using other [of n] below [of n] that le by simp
      qed
      have above1: "p \<le> arr1 ! n" if "j1 - 1 < int n" "int n \<le> right" for n
      proof (cases "int n = j1")
        case True
        then have "n = nat j1" by simp
        then show ?thesis using at_j1 U(4) by simp
      next
        case False
        then show ?thesis using other [of n] above [of n] that le by simp
      qed
      have inv': "part_inv left right p arr1 (i1 + 1) (j1 - 1)"
        unfolding part_inv_def
      proof (intro conjI allI impI)
        assume lt: "i1 + 1 \<le> j1 - 1"
        have "i1 + 1 \<le> int (nat j1) \<and> int (nat j1) \<le> right \<and> p \<le> arr1 ! nat j1"
          using lt rng at_j1 U(4) D(1) I(6) by simp
        then show "\<exists>n. i1 + 1 \<le> int n \<and> int n \<le> right \<and> p \<le> arr1 ! n" by blast
        have "left \<le> int (nat i1) \<and> int (nat i1) \<le> j1 - 1 \<and> arr1 ! nat i1 \<le> p"
          using lt rng at_i1 D(4) U(1) I(3) by simp
        then show "\<exists>n. left \<le> int n \<and> int n \<le> j1 - 1 \<and> arr1 ! n \<le> p" by blast
      next
        fix n assume "left \<le> int n \<and> int n < i1 + 1"
        then show "arr1 ! n \<le> p" using below1 by simp
      next
        fix n assume "j1 - 1 < int n \<and> int n \<le> right"
        then show "p \<le> arr1 ! n" using above1 by simp
      qed (use I(1,2,3,6) U(1) D(1) le i1r j1l len1 in simp_all)
      have "nat (j1 - 1 - (i1 + 1) + 1) < nat (j - i + 1)" using U(1) D(1) True by simp
      from less.hyps [OF this inv'] ok'
      obtain a i' j' t4 where
        rec: "partition_loop arr1 p (i1 + 1) (j1 - 1) = Inr (a, i', j', t4)" and
        post: "part_post left right p arr1 (i1 + 1) (j1 - 1) a i' j' t4" by blast
      note P = part_postD [OF post]
      have "partition_loop arr p i j =
              Inr (a, i', j', t1 @ t2 @ [Read i1, Read j1, Write i1, Write j1] @ t4)"
        using True u d le s c rec by (simp add: partition_loop.simps [of arr p i j])
      moreover
      have "part_post left right p arr i j a i' j'
              (t1 @ t2 @ [Read i1, Read j1, Write i1, Write j1] @ t4)"
      proof (rule part_postI)
        show "j' < i'" by (rule P(1))
        show "i \<le> i'" using P(2) U(1) by simp
        show "j' \<le> j" using P(3) D(1) by simp
        show "i' \<le> right + 1" by (rule P(4))
        show "left - 1 \<le> j'" by (rule P(5))
        show "i \<le> j \<Longrightarrow> i - 1 \<le> j' \<and> i' \<le> j + 1"
        proof (cases "i1 + 1 \<le> j1 - 1")
          case True
          then show ?thesis using P(6,7) U(1) D(1) by simp
        next
          case False
          then have "i' = i1 + 1" "j' = j1 - 1" using P(8,9) by simp_all
          then show ?thesis using U(1) D(1) le by simp
        qed
        show "j < i \<Longrightarrow> i' = i \<and> j' = j" using True by simp
        show "min i (m - 1) \<le> j' \<and> i' \<le> max j (m + 1)"
          if "i \<le> m" "m \<le> j" "arr ! nat m = p" for m
        proof (cases "i1 + 1 \<le> j1 - 1")
          case True
          then show ?thesis using P(6,7) U(1) D(1) by (simp add: min_def max_def)
        next
          case False
          then have "i' = i1 + 1" "j' = j1 - 1" using P(8,9) by simp_all
          then show ?thesis using stop_u [of m] stop_d [of m] that by (simp add: min_def max_def)
        qed
        show "length a = length arr" using P(11) len1 by simp
        show "mset a = mset arr" using P(12) mset1 by simp
        show "a ! n = arr ! n" if "int n < i \<or> j < int n" for n
        proof -
          have "a ! n = arr1 ! n" using P(13) [of n] that U(1) D(1) by auto
          also have "arr1 ! n = arr ! n" using other [of n] that U(1) D(1) le by auto
          finally show ?thesis .
        qed
        show "\<And>n. left \<le> int n \<Longrightarrow> int n < i' \<Longrightarrow> a ! n \<le> p" by (rule P(14))
        show "\<And>n. j' < int n \<Longrightarrow> int n \<le> right \<Longrightarrow> p \<le> a ! n" by (rule P(15))
        have "set (accesses [Read i1, Read j1, Write i1, Write j1]) \<subseteq> {left..right}"
          using U(1) D(1) I(3,6) i1r j1l by simp
        then show "set (accesses (t1 @ t2 @ [Read i1, Read j1, Write i1, Write j1] @ t4))
            \<subseteq> {left..right}"
          using acc12 P(16) by simp
        show "calls (t1 @ t2 @ [Read i1, Read j1, Write i1, Write j1] @ t4) = []"
          using cl12 P(17) by simp
      qed
      ultimately show ?thesis by blast
    qed
  qed
qed

lemma partition_correct:
  assumes "0 \<le> left" "left \<le> right" "right < int (length arr)"
    and "left + right \<le> INT_MAX \<or> (\<exists>res. partition_step arr left right = Inr res)"
  defines "m \<equiv> c_div (left + right) 2"
  shows "\<exists>a i j t. partition_step arr left right = Inr (a, i, j, Read m # t) \<and>
           part_post left right (arr ! nat m) arr left right a i j t \<and> left \<le> m \<and> m \<le> right"
proof -
  let ?p = "arr ! nat m"
  have mb: "left \<le> m" "m \<le> right" using c_div_2_between [OF assms(2)] by (auto simp: m_def)
  have r: "rd arr m = Inr ?p" using mb assms(1-3) by (simp add: rd_def)
  have "c_int (left + right) = Inr (left + right) \<and>
        ((right \<le> INT_MAX \<and> (right < INT_MAX \<or>
            (\<exists>n. left \<le> int n \<and> int n < INT_MAX \<and> ?p \<le> arr ! n))) \<or>
         (\<exists>res. partition_loop arr ?p left right = Inr res))"
    using assms(4)
  proof
    assume b: "left + right \<le> INT_MAX"
    then have c: "c_int (left + right) = Inr (left + right)"
      using assms(1-3) by (simp add: c_int_def INT_MIN_def)
    have le: "right \<le> INT_MAX" using b assms(1) by simp
    have "right < INT_MAX \<or> (\<exists>n. left \<le> int n \<and> int n < INT_MAX \<and> ?p \<le> arr ! n)"
    proof (cases "left = right")
      case True
      then show ?thesis using b assms(1) by (simp add: INT_MAX_def)
    next
      case False
      then have "m < right" using assms(1,2) by (auto simp: m_def c_div_def)
      then have "left \<le> int (nat m) \<and> int (nat m) < INT_MAX \<and> ?p \<le> arr ! nat m"
        using mb assms(1) le by simp
      then show ?thesis by blast
    qed
    then show ?thesis using c le by simp
  next
    assume "\<exists>res. partition_step arr left right = Inr res"
    then obtain res where "partition_step arr left right = Inr res" ..
    then show ?thesis
      using r by (auto simp: partition_step_def m_def c_int_def split: sum.splits if_splits)
  qed
  then have c: "c_int (left + right) = Inr (left + right)" and
    ok: "(right \<le> INT_MAX \<and> (right < INT_MAX \<or>
            (\<exists>n. left \<le> int n \<and> int n < INT_MAX \<and> ?p \<le> arr ! n))) \<or>
         (\<exists>res. partition_loop arr ?p left right = Inr res)" by simp_all
  have "part_inv left right ?p arr left right"
    unfolding part_inv_def using assms(1-3) mb
    by (auto intro!: exI [of _ "nat m"])
  from partition_loop_correct [OF this ok]
  obtain a i j t where "partition_loop arr ?p left right = Inr (a, i, j, t)"
    "part_post left right ?p arr left right a i j t" by blast
  then show ?thesis using c r mb by (auto simp: partition_step_def m_def)
qed

text \<open>
  The bound on \<open>left + right\<close> is the one the step needs: above it the step fails
  at its first statement.
\<close>

lemma partition_overflow:
  "INT_MAX < left + right \<Longrightarrow> partition_step arr left right = Inl SignedOverflow"
  by (simp add: partition_step_def c_int_def)

subsection \<open>The elements of a range\<close>

lemma length_slice: "0 \<le> l \<Longrightarrow> r < int (length arr) \<Longrightarrow> length (slice arr l r) = nat (r - l + 1)"
  by (auto simp: slice_def)

lemma nth_slice:
  "0 \<le> l \<Longrightarrow> r < int (length arr) \<Longrightarrow> k < nat (r - l + 1) \<Longrightarrow> slice arr l r ! k = arr ! (nat l + k)"
  by (auto simp: slice_def)

lemma set_slice:
  assumes "0 \<le> l" "r < int (length arr)"
  shows "set (slice arr l r) = {arr ! n | n. l \<le> int n \<and> int n \<le> r}"
proof (intro equalityI subsetI)
  fix x assume "x \<in> set (slice arr l r)"
  then obtain k where k: "k < nat (r - l + 1)" "x = slice arr l r ! k"
    using length_slice [OF assms] by (auto simp: in_set_conv_nth)
  then have "x = arr ! (nat l + k)" using nth_slice [OF assms] by simp
  then show "x \<in> {arr ! n | n. l \<le> int n \<and> int n \<le> r}"
    using assms k by (auto intro!: exI [of _ "nat l + k"])
next
  fix x assume "x \<in> {arr ! n | n. l \<le> int n \<and> int n \<le> r}"
  then obtain n where n: "x = arr ! n" "l \<le> int n" "int n \<le> r" by auto
  then have "n - nat l < nat (r - l + 1)" "nat l + (n - nat l) = n" using assms by auto
  then have "slice arr l r ! (n - nat l) = x" "n - nat l < length (slice arr l r)"
    using nth_slice [OF assms, of "n - nat l"] length_slice [OF assms] n by auto
  then show "x \<in> set (slice arr l r)" by (metis nth_mem)
qed

lemma mset_slice_preserved:
  assumes len: "length a = length b" and ms: "mset a = mset b"
    and out: "\<forall>n. int n < l \<or> r < int n \<longrightarrow> a ! n = b ! n"
    and rng: "0 \<le> l" "r < int (length b)"
  shows "mset (slice a l r) = mset (slice b l r)"
proof -
  let ?L = "nat l" and ?k = "nat (r - l + 1)"
  have split: "xs = take ?L xs @ take ?k (drop ?L xs) @ drop ?k (drop ?L xs)" for xs :: "int list"
    by (simp only: append_take_drop_id)
  have "take ?L a = take ?L b"
    using len out by (intro nth_equalityI) auto
  moreover have "drop ?k (drop ?L a) = drop ?k (drop ?L b)"
    using len out rng by (intro nth_equalityI) auto
  moreover have "mset a = mset (take ?L a) + mset (take ?k (drop ?L a)) + mset (drop ?k (drop ?L a))"
    by (subst split [of a]) (simp only: mset_append add.assoc)
  moreover have "mset b = mset (take ?L b) + mset (take ?k (drop ?L b)) + mset (drop ?k (drop ?L b))"
    by (subst split [of b]) (simp only: mset_append add.assoc)
  ultimately show ?thesis using ms by (simp add: slice_def)
qed

lemma range_transfer:
  fixes a b :: "int list"
  assumes len: "length a = length b" and ms: "mset a = mset b"
    and out: "\<forall>n. int n < l \<or> r < int n \<longrightarrow> a ! n = b ! n"
    and rng: "0 \<le> l" "r < int (length b)"
    and P: "\<forall>n. l \<le> int n \<and> int n \<le> r \<longrightarrow> P (b ! n)"
    and n: "l \<le> int n" "int n \<le> r"
  shows "P (a ! n)"
proof -
  have "set (slice a l r) = set (slice b l r)"
    using mset_slice_preserved [OF len ms out rng] by (metis set_mset_mset)
  moreover have "a ! n \<in> set (slice a l r)"
    using set_slice [of l r a] rng len n by auto
  ultimately have "a ! n \<in> {b ! n | n. l \<le> int n \<and> int n \<le> r}"
    using set_slice [of l r b] rng by simp
  then show ?thesis using P by auto
qed

lemma sorted_slice:
  assumes "0 \<le> l" "r < int (length a)"
  shows "sorted (slice a l r) \<longleftrightarrow> (\<forall>m n. l \<le> int m \<and> m \<le> n \<and> int n \<le> r \<longrightarrow> a ! m \<le> a ! n)"
proof
  assume s: "sorted (slice a l r)"
  show "\<forall>m n. l \<le> int m \<and> m \<le> n \<and> int n \<le> r \<longrightarrow> a ! m \<le> a ! n"
  proof (intro allI impI)
    fix m n assume h: "l \<le> int m \<and> m \<le> n \<and> int n \<le> r"
    then have "slice a l r ! (m - nat l) \<le> slice a l r ! (n - nat l)"
      using s assms length_slice [OF assms] by (intro sorted_nth_mono) auto
    then show "a ! m \<le> a ! n"
      using h assms nth_slice [OF assms, of "m - nat l"] nth_slice [OF assms, of "n - nat l"]
      by auto
  qed
next
  assume h: "\<forall>m n. l \<le> int m \<and> m \<le> n \<and> int n \<le> r \<longrightarrow> a ! m \<le> a ! n"
  show "sorted (slice a l r)"
    unfolding sorted_iff_nth_mono
  proof (intro allI impI)
    fix i j assume ij: "i \<le> j" "j < length (slice a l r)"
    then have "j < nat (r - l + 1)" using length_slice [OF assms] by simp
    then have "slice a l r ! i = a ! (nat l + i)" "slice a l r ! j = a ! (nat l + j)"
      using nth_slice [OF assms] ij by auto
    moreover have "a ! (nat l + i) \<le> a ! (nat l + j)"
      using h ij assms \<open>j < nat (r - l + 1)\<close> by auto
    ultimately show "slice a l r ! i \<le> slice a l r ! j" by simp
  qed
qed


subsection \<open>The sorters on a range of the array\<close>

lemma qs_post_trivial: "r \<le> l \<Longrightarrow> qs_post l r arr arr"
proof -
  assume "r \<le> l"
  then have "m = n" if "l \<le> int m" "m \<le> n" "int n \<le> r" for m n using that by simp
  then show ?thesis by (auto simp: qs_post_def)
qed

lemma qs_combine:
  assumes valid: "0 \<le> left" "right < int (length arr)"
    and P: "part_post left right p arr left right a1 i j t0"
    and L: "qs_post left j a1 a2"
    and R: "qs_post i right a2 a3"
  shows "qs_post left right arr a3"
proof -
  note P' = P [unfolded part_post_def] and L' = L [unfolded qs_post_def]
    and R' = R [unfolded qs_post_def]
  have ij: "j < i" "left \<le> i" "j \<le> right" "i \<le> right + 1" "left - 1 \<le> j" using P' by auto
  have len: "length a1 = length arr" "length a2 = length arr" "length a3 = length arr"
    using P' L' R' by auto
  have ms: "mset a3 = mset arr" using P' L' R' by simp
  have le1: "\<forall>n. left \<le> int n \<and> int n \<le> j \<longrightarrow> a1 ! n \<le> p" using P' by auto
  have ge2: "\<forall>n. i \<le> int n \<and> int n \<le> right \<longrightarrow> p \<le> a2 ! n" using P' L' by auto
  have low: "a3 ! n \<le> p" if "left \<le> int n" "int n < i" for n
  proof (cases "int n \<le> j")
    case True
    have "a2 ! n \<le> p"
      using range_transfer [of a2 a1 left j "\<lambda>x. x \<le> p" n] L' le1 valid ij len that True by auto
    then show ?thesis using R' that by auto
  next
    case False
    then have "a3 ! n = a1 ! n" using R' L' that by auto
    then show ?thesis using P' that by auto
  qed
  have high: "p \<le> a3 ! n" if "j < int n" "int n \<le> right" for n
  proof (cases "i \<le> int n")
    case True
    show ?thesis
      using range_transfer [of a3 a2 i right "\<lambda>x. p \<le> x" n] R' ge2 valid ij len that True by auto
  next
    case False
    then have "a3 ! n = a1 ! n" using R' L' that by auto
    then show ?thesis using P' that by auto
  qed
  have srt: "a3 ! m \<le> a3 ! n" if "left \<le> int m" "m \<le> n" "int n \<le> right" for m n
  proof -
    consider "int n \<le> j" | "i \<le> int m" | "int m < i" "j < int n" by linarith
    then show ?thesis
    proof cases
      case 1
      then have "a2 ! m \<le> a2 ! n" using L' that by auto
      moreover have "a3 ! m = a2 ! m" "a3 ! n = a2 ! n" using R' 1 ij that by auto
      ultimately show ?thesis by simp
    next
      case 2
      then show ?thesis using R' that by auto
    next
      case 3
      have "a3 ! m \<le> p" using low [of m] that 3 by simp
      moreover have "p \<le> a3 ! n" using high [of n] that 3 by simp
      ultimately show ?thesis by simp
    qed
  qed
  have out: "a3 ! n = arr ! n" if "int n < left \<or> right < int n" for n
  proof -
    have "a3 ! n = a2 ! n" using R' that ij by auto
    also have "a2 ! n = a1 ! n" using L' that ij by auto
    also have "a1 ! n = arr ! n" using P' that by auto
    finally show ?thesis .
  qed
  show ?thesis unfolding qs_post_def using len ms out srt by blast
qed

declare QuickSort.simps [simp del] QuickSort_Parallel.simps [simp del]

lemma logged_Inr [simp]: "logged ev (Inr (a, t)) = Inr (a, ev # t)"
  by (simp add: logged_def)

lemma QuickSort_correct:
  assumes "0 \<le> left" "left \<le> right" "right < int (length arr)" "2 * right \<le> INT_MAX"
  shows "\<exists>a t. QuickSort arr left right = Inr (a, t) \<and> qs_post left right arr a \<and>
           set (accesses t) \<subseteq> {left..right}"
  using assms
proof (induction "nat (right - left)" arbitrary: arr left right rule: less_induct)
  case less
  note valid = less.prems
  define m where "m = c_div (left + right) 2"
  have "left + right \<le> INT_MAX \<or> (\<exists>res. partition_step arr left right = Inr res)"
    using valid by (simp add: INT_MAX_def)
  from partition_correct [OF valid(1-3) this]
  obtain a1 i j t0 where
    part: "partition_step arr left right = Inr (a1, i, j, Read m # t0)" and
    P: "part_post left right (arr ! nat m) arr left right a1 i j t0" and
    mb: "left \<le> m" "m \<le> right"
    unfolding m_def by blast
  note P' = part_postD [OF P]
  from partition_progress [OF part valid(2)] have prog: "left < i" "j < right" by auto
  have len1: "length a1 = length arr" by (rule P'(11))
  have "\<exists>a2 t1. (if left < j then logged (Call left j) (QuickSort a1 left j) else Inr (a1, []))
            = Inr (a2, t1) \<and> qs_post left j a1 a2 \<and> set (accesses t1) \<subseteq> {left..j}"
  proof (cases "left < j")
    case True
    have "nat (j - left) < nat (right - left)" using True prog by simp
    from less.hyps [OF this, of a1] True prog valid len1
    obtain a2 t1 where "QuickSort a1 left j = Inr (a2, t1)" "qs_post left j a1 a2"
      "set (accesses t1) \<subseteq> {left..j}" by auto
    then show ?thesis using True by simp
  next
    case False
    then show ?thesis using qs_post_trivial [of j left a1] by simp
  qed
  then obtain a2 t1 where
    lcall: "(if left < j then logged (Call left j) (QuickSort a1 left j) else Inr (a1, []))
            = Inr (a2, t1)" and
    L: "qs_post left j a1 a2" and tl: "set (accesses t1) \<subseteq> {left..j}" by blast
  have len2: "length a2 = length arr" using L len1 by (simp add: qs_post_def)
  have "\<exists>a3 t2. (if i < right then logged (Call i right) (QuickSort a2 i right) else Inr (a2, []))
            = Inr (a3, t2) \<and> qs_post i right a2 a3 \<and> set (accesses t2) \<subseteq> {i..right}"
  proof (cases "i < right")
    case True
    have "nat (right - i) < nat (right - left)" using True prog by simp
    from less.hyps [OF this, of a2] True prog valid len2
    obtain a3 t2 where "QuickSort a2 i right = Inr (a3, t2)" "qs_post i right a2 a3"
      "set (accesses t2) \<subseteq> {i..right}" by auto
    then show ?thesis using True by simp
  next
    case False
    then show ?thesis using qs_post_trivial [of right i a2] by simp
  qed
  then obtain a3 t2 where
    rcall: "(if i < right then logged (Call i right) (QuickSort a2 i right) else Inr (a2, []))
            = Inr (a3, t2)" and
    R: "qs_post i right a2 a3" and tr: "set (accesses t2) \<subseteq> {i..right}" by blast
  have "QuickSort arr left right = Inr (a3, (Read m # t0) @ t1 @ t2)"
    by (simp add: QuickSort.simps [of arr left right] part lcall rcall)
  moreover have "qs_post left right arr a3"
    using qs_combine [OF valid(1,3) P L R] .
  moreover have "set (accesses ((Read m # t0) @ t1 @ t2)) \<subseteq> {left..right}"
    using P'(16) tl tr mb prog by auto
  ultimately show ?case by blast
qed

lemma c_div_2_inside: "l + 2 \<le> r \<Longrightarrow> l + 1 \<le> c_div (l + r) 2 \<and> c_div (l + r) 2 + 1 \<le> r"
  by (auto simp: c_div_def)

lemma QuickSort_Parallel_correct:
  assumes "0 \<le> left" "left \<le> right" "right < int (length arr)" "2 * right \<le> INT_MAX"
  shows "\<exists>a t. QuickSort_Parallel arr left right = Inr (a, t) \<and> qs_post left right arr a \<and>
           set (accesses t) \<subseteq> {left..right}"
  using assms
proof (induction "nat (right - left)" arbitrary: arr left right rule: less_induct)
  case less
  note valid = less.prems
  define m where "m = c_div (left + right) 2"
  have "left + right \<le> INT_MAX \<or> (\<exists>res. partition_step arr left right = Inr res)"
    using valid by (simp add: INT_MAX_def)
  from partition_correct [OF valid(1-3) this]
  obtain a1 i j t0 where
    part: "partition_step arr left right = Inr (a1, i, j, Read m # t0)" and
    P: "part_post left right (arr ! nat m) arr left right a1 i j t0" and
    mb: "left \<le> m" "m \<le> right"
    unfolding m_def by blast
  note P' = part_postD [OF P]
  from partition_progress [OF part valid(2)] have prog: "left < i" "j < right" by auto
  have len1: "length a1 = length arr" by (rule P'(11))
  have d: "c_int (right - left) = Inr (right - left)"
    using valid by (auto simp: c_int_def INT_MIN_def INT_MAX_def)
  have sub: "\<exists>a' t'. QuickSort_Parallel a l r = Inr (a', t') \<and> qs_post l r a a' \<and>
               set (accesses t') \<subseteq> {l..r}"
    if "left \<le> l" "l \<le> r" "r \<le> right" "left < l \<or> r < right" "length a = length arr"
    for a l r
  proof -
    have "nat (r - l) < nat (right - left)" using that by auto
    from less.hyps [OF this, of a] that valid show ?thesis by auto
  qed
  show ?case
  proof (cases "right - left < Cut_Off")
    case True
    have "\<exists>a2 t1. (if left < j then logged (Call left j) (QuickSort_Parallel a1 left j)
              else Inr (a1, []))
              = Inr (a2, t1) \<and> qs_post left j a1 a2 \<and> set (accesses t1) \<subseteq> {left..j}"
    proof (cases "left < j")
      case True
      from sub [of left j a1] True prog len1
      obtain a2 t1 where "QuickSort_Parallel a1 left j = Inr (a2, t1)" "qs_post left j a1 a2"
        "set (accesses t1) \<subseteq> {left..j}" by auto
      then show ?thesis using True by simp
    next
      case False
      then show ?thesis using qs_post_trivial [of j left a1] by simp
    qed
    then obtain a2 t1 where
      lcall: "(if left < j then logged (Call left j) (QuickSort_Parallel a1 left j)
               else Inr (a1, [])) = Inr (a2, t1)" and
      L: "qs_post left j a1 a2" and tl: "set (accesses t1) \<subseteq> {left..j}" by blast
    have len2: "length a2 = length arr" using L len1 by (simp add: qs_post_def)
    have "\<exists>a3 t2. (if i < right then logged (Call i right) (QuickSort_Parallel a2 i right)
              else Inr (a2, []))
              = Inr (a3, t2) \<and> qs_post i right a2 a3 \<and> set (accesses t2) \<subseteq> {i..right}"
    proof (cases "i < right")
      case True
      from sub [of i right a2] True prog len2
      obtain a3 t2 where "QuickSort_Parallel a2 i right = Inr (a3, t2)" "qs_post i right a2 a3"
        "set (accesses t2) \<subseteq> {i..right}" by auto
      then show ?thesis using True by simp
    next
      case False
      then show ?thesis using qs_post_trivial [of right i a2] by simp
    qed
    then obtain a3 t2 where
      rcall: "(if i < right then logged (Call i right) (QuickSort_Parallel a2 i right)
               else Inr (a2, [])) = Inr (a3, t2)" and
      R: "qs_post i right a2 a3" and tr: "set (accesses t2) \<subseteq> {i..right}" by blast
    have "QuickSort_Parallel arr left right = Inr (a3, (Read m # t0) @ t1 @ t2)"
      using True by (simp add: QuickSort_Parallel.simps [of arr left right] part d lcall rcall)
    moreover have "qs_post left right arr a3"
      using qs_combine [OF valid(1,3) P L R] .
    moreover have "set (accesses ((Read m # t0) @ t1 @ t2)) \<subseteq> {left..right}"
      using P'(16) tl tr mb prog by auto
    ultimately show ?thesis by blast
  next
    case False
    then have wide: "left + 2 \<le> right" by (simp add: Cut_Off_def)
    from c_div_2_inside [OF wide] have "left + 1 \<le> m" "m + 1 \<le> right" by (auto simp: m_def)
    moreover have "min left (m - 1) \<le> j \<and> i \<le> max right (m + 1)"
      using P'(10) [of m] mb by (simp add: m_def)
    ultimately have inner: "left \<le> j" "i \<le> right" by auto
    from sub [of left j a1] inner prog len1
    obtain a2 t1 where lcall: "QuickSort_Parallel a1 left j = Inr (a2, t1)" and
      L: "qs_post left j a1 a2" and tl: "set (accesses t1) \<subseteq> {left..j}" by auto
    have len2: "length a2 = length arr" using L len1 by (simp add: qs_post_def)
    from sub [of i right a2] inner prog len2
    obtain a3 t2 where rcall: "QuickSort_Parallel a2 i right = Inr (a3, t2)" and
      R: "qs_post i right a2 a3" and tr: "set (accesses t2) \<subseteq> {i..right}" by auto
    have "QuickSort_Parallel arr left right =
            Inr (a3, (Read m # t0) @ (Task left j # t1) @ (Task i right # t2))"
      using False by (simp add: QuickSort_Parallel.simps [of arr left right] part d lcall rcall)
    moreover have "qs_post left right arr a3"
      using qs_combine [OF valid(1,3) P L R] .
    moreover have "set (accesses ((Read m # t0) @ (Task left j # t1) @ (Task i right # t2)))
        \<subseteq> {left..right}"
      using P'(16) tl tr mb prog by auto
    ultimately show ?thesis by blast
  qed
qed

lemma qs_post_unique:
  assumes "qs_post l r arr a" "qs_post l r arr b" "0 \<le> l" "r < int (length arr)"
  shows "a = b"
proof -
  note A = assms(1) [unfolded qs_post_def] and B = assms(2) [unfolded qs_post_def]
  have rng: "r < int (length a)" "r < int (length b)" using A B assms by auto
  have "mset (slice a l r) = mset (slice arr l r)"
    using mset_slice_preserved [of a arr l r] A assms by auto
  moreover have "mset (slice b l r) = mset (slice arr l r)"
    using mset_slice_preserved [of b arr l r] B assms by auto
  moreover have "sorted (slice a l r)" "sorted (slice b l r)"
    using sorted_slice [OF assms(3) rng(1)] sorted_slice [OF assms(3) rng(2)] A B by auto
  ultimately have eq: "slice a l r = slice b l r"
    by (metis properties_for_sort)
  show ?thesis
  proof (rule nth_equalityI)
    show "length a = length b" using A B by simp
  next
    fix n assume n: "n < length a"
    show "a ! n = b ! n"
    proof (cases "int n < l \<or> r < int n")
      case True
      then show ?thesis using A B by auto
    next
      case False
      then have k: "n - nat l < nat (r - l + 1)" "nat l + (n - nat l) = n" using assms by auto
      have "a ! n = slice a l r ! (n - nat l)"
        using nth_slice [OF assms(3) rng(1) k(1)] k(2) by simp
      also have "\<dots> = slice b l r ! (n - nat l)" using eq by simp
      also have "\<dots> = b ! n" using nth_slice [OF assms(3) rng(2) k(1)] k(2) by simp
      finally show ?thesis .
    qed
  qed
qed

text \<open>Below the cutoff the parallel sorter is the sequential one, event for event.\<close>

lemma QuickSort_Parallel_inline:
  assumes "INT_MIN \<le> right - left" "right - left < Cut_Off"
  shows "QuickSort_Parallel arr left right = QuickSort arr left right"
  using assms
proof (induction "nat (right - left)" arbitrary: arr left right rule: less_induct)
  case less
  have d: "c_int (right - left) = Inr (right - left)"
    using less.prems by (auto simp: c_int_def Cut_Off_def INT_MAX_def)
  show ?case
  proof (cases "partition_step arr left right")
    case (Inl e)
    then show ?thesis
      by (simp add: QuickSort.simps [of arr left right] QuickSort_Parallel.simps [of arr left right])
  next
    case (Inr res)
    obtain a1 i j t0 where res: "res = (a1, i, j, t0)" by (cases res)
    note part = Inr [unfolded res]
    from partition_smaller [OF part] have sm: "left < j \<longrightarrow> j < right" "i < right \<longrightarrow> left < i"
      by auto
    have l: "QuickSort_Parallel a left j = QuickSort a left j" if "left < j" for a
    proof -
      have "nat (j - left) < nat (right - left)" using that sm by simp
      from less.hyps [OF this, of a] that sm less.prems show ?thesis
        by (simp add: INT_MIN_def)
    qed
    have r: "QuickSort_Parallel a i right = QuickSort a i right" if "i < right" for a
    proof -
      have "nat (right - i) < nat (right - left)" using that sm by simp
      from less.hyps [OF this, of a] that sm less.prems show ?thesis
        by (simp add: INT_MIN_def)
    qed
    have first: "(if left < j then logged (Call left j) (QuickSort_Parallel a1 left j)
                  else Inr (a1, [])) =
                 (if left < j then logged (Call left j) (QuickSort a1 left j) else Inr (a1, []))"
      using l by simp
    have second: "(if i < right then logged (Call i right) (QuickSort_Parallel a i right)
                   else Inr (a, [])) =
                  (if i < right then logged (Call i right) (QuickSort a i right) else Inr (a, []))"
      for a using r by simp
    show ?thesis
      using less.prems(2)
      by (simp add: QuickSort.simps [of arr left right] QuickSort_Parallel.simps [of arr left right]
          part d first second split: sum.split prod.split)
  qed
qed

subsection \<open>What a sorter that returns has left untouched\<close>

lemma partition_loop_frame:
  "partition_loop arr p i j = Inr (a, i', j', t) \<Longrightarrow>
     \<forall>n. int n < i \<or> j < int n \<longrightarrow> a ! n = arr ! n"
proof (induction "nat (j - i + 1)" arbitrary: arr i j t rule: less_induct)
  case less
  from less.prems show ?case
  proof (cases rule: partition_loop_Inr_cases)
    case exit
    then show ?thesis by simp
  next
    case (swap i1 t1 j1 t2 arr1 t3 t4)
    note u = scan_up_Inr [OF swap(2)] and d = scan_down_Inr [OF swap(3)]
    have "nat (j1 - 1 - (i1 + 1) + 1) < nat (j - i + 1)" using u d swap(1) by auto
    from less.hyps [OF this swap(8)]
    have "\<forall>n. int n < i1 + 1 \<or> j1 - 1 < int n \<longrightarrow> a ! n = arr1 ! n" .
    moreover have "arr1 ! n = arr ! n" if "int n < i \<or> j < int n" for n
    proof -
      have "0 \<le> i" "i \<le> i1" "i1 \<le> j1" "j1 \<le> j" using swap(4) u d by simp_all
      then have "n \<noteq> nat i1" "n \<noteq> nat j1" using that by linarith+
      then show ?thesis using swap(5) by (auto simp: swap_Inr)
    qed
    ultimately show ?thesis using u d by auto
  next
    case (last i1 t1 j1 t2 t4)
    note u = scan_up_Inr [OF last(2)] and d = scan_down_Inr [OF last(3)]
    have "nat (j1 - i1 + 1) < nat (j - i + 1)" using u d last(1,4) by auto
    from less.hyps [OF this last(5)] u d show ?thesis by auto
  qed
qed

lemma partition_frame:
  assumes "partition_step arr l r = Inr (a, i, j, t)"
  shows "length a = length arr \<and> (\<forall>n. int n < l \<or> r < int n \<longrightarrow> a ! n = arr ! n)"
proof -
  from assms obtain p t' where "partition_loop arr p l r = Inr (a, i, j, t')"
    by (auto simp: partition_step_def split: sum.splits)
  from partition_loop_mono [OF this] partition_loop_frame [OF this] show ?thesis by simp
qed

lemma unchanged_outside_refl: "unchanged_outside l r arr arr"
  by (simp add: unchanged_outside_def)

lemma logged_Inr_iff: "logged ev res = Inr (a, t) \<longleftrightarrow> (\<exists>t'. res = Inr (a, t') \<and> t = ev # t')"
  by (auto simp: logged_def split: sum.splits)

lemma QuickSort_frame:
  "QuickSort arr l r = Inr (a, t) \<Longrightarrow> unchanged_outside l r arr a"
proof (induction "nat (r - l)" arbitrary: arr l r a t rule: less_induct)
  case less
  from less.prems obtain a1 i j t0 where part: "partition_step arr l r = Inr (a1, i, j, t0)"
    by (cases "partition_step arr l r") (auto simp: QuickSort.simps [of arr l r])
  from partition_smaller [OF part] have sm: "l < j \<longrightarrow> j < r" "i < r \<longrightarrow> l < i" by auto
  let ?c1 = "if l < j then logged (Call l j) (QuickSort a1 l j) else Inr (a1, [])"
  from less.prems part obtain a2 t1 where c1: "?c1 = Inr (a2, t1)"
    by (cases ?c1) (auto simp: QuickSort.simps [of arr l r])
  let ?c2 = "if i < r then logged (Call i r) (QuickSort a2 i r) else Inr (a2, [])"
  from less.prems part c1 obtain t2 where c2: "?c2 = Inr (a, t2)"
    by (cases ?c2) (auto simp: QuickSort.simps [of arr l r])
  have f0: "unchanged_outside l r arr a1"
    using partition_frame [OF part] by (simp add: unchanged_outside_def)
  have f1: "unchanged_outside l r a1 a2"
  proof (cases "l < j")
    case True
    then obtain t' where "QuickSort a1 l j = Inr (a2, t')" using c1 by (auto simp: logged_Inr_iff)
    moreover have "nat (j - l) < nat (r - l)" using True sm by simp
    ultimately have "unchanged_outside l j a1 a2" using less.hyps by blast
    then show ?thesis using True sm by (auto simp: unchanged_outside_def)
  next
    case False
    then show ?thesis using c1 by (simp add: unchanged_outside_refl)
  qed
  have f2: "unchanged_outside l r a2 a"
  proof (cases "i < r")
    case True
    then obtain t' where "QuickSort a2 i r = Inr (a, t')" using c2 by (auto simp: logged_Inr_iff)
    moreover have "nat (r - i) < nat (r - l)" using True sm by simp
    ultimately have "unchanged_outside i r a2 a" using less.hyps by blast
    then show ?thesis using True sm by (auto simp: unchanged_outside_def)
  next
    case False
    then show ?thesis using c2 by (simp add: unchanged_outside_refl)
  qed
  from f0 f1 f2 show ?case by (auto simp: unchanged_outside_def)
qed

lemma QuickSort_Parallel_frame:
  "QuickSort_Parallel arr l r = Inr (a, t) \<Longrightarrow> unchanged_outside l r arr a"
proof (induction "nat (r - l)" arbitrary: arr l r a t rule: less_induct)
  case less
  note simps = QuickSort_Parallel.simps [of arr l r]
  from less.prems obtain a1 i j t0 where part: "partition_step arr l r = Inr (a1, i, j, t0)"
    by (cases "partition_step arr l r") (auto simp: simps)
  from less.prems part have d: "c_int (r - l) = Inr (r - l)"
    by (cases "c_int (r - l)") (auto simp: simps c_int_Inr)
  from partition_smaller [OF part] have sm: "l < j \<longrightarrow> j < r" "i < r \<longrightarrow> l < i" by auto
  have f0: "unchanged_outside l r arr a1"
    using partition_frame [OF part] by (simp add: unchanged_outside_def)
  show ?case
  proof (cases "r - l < Cut_Off")
    case True
    let ?c1 = "if l < j then logged (Call l j) (QuickSort_Parallel a1 l j) else Inr (a1, [])"
    from less.prems part d True obtain a2 t1 where c1: "?c1 = Inr (a2, t1)"
      by (cases ?c1) (auto simp: simps)
    let ?c2 = "if i < r then logged (Call i r) (QuickSort_Parallel a2 i r) else Inr (a2, [])"
    from less.prems part d True c1 obtain t2 where c2: "?c2 = Inr (a, t2)"
      by (cases ?c2) (auto simp: simps)
    have f1: "unchanged_outside l r a1 a2"
    proof (cases "l < j")
      case True
      then obtain t' where "QuickSort_Parallel a1 l j = Inr (a2, t')"
        using c1 by (auto simp: logged_Inr_iff)
      moreover have "nat (j - l) < nat (r - l)" using True sm by simp
      ultimately have "unchanged_outside l j a1 a2" using less.hyps by blast
      then show ?thesis using True sm by (auto simp: unchanged_outside_def)
    next
      case False
      then show ?thesis using c1 by (simp add: unchanged_outside_refl)
    qed
    have f2: "unchanged_outside l r a2 a"
    proof (cases "i < r")
      case True
      then obtain t' where "QuickSort_Parallel a2 i r = Inr (a, t')"
        using c2 by (auto simp: logged_Inr_iff)
      moreover have "nat (r - i) < nat (r - l)" using True sm by simp
      ultimately have "unchanged_outside i r a2 a" using less.hyps by blast
      then show ?thesis using True sm by (auto simp: unchanged_outside_def)
    next
      case False
      then show ?thesis using c2 by (simp add: unchanged_outside_refl)
    qed
    from f0 f1 f2 show ?thesis by (auto simp: unchanged_outside_def)
  next
    case False
    then have lr: "l \<le> r" "l < r" by (auto simp: Cut_Off_def)
    from partition_progress [OF part lr(1)] have prog: "l < i" "j < r" by auto
    let ?c1 = "logged (Task l j) (QuickSort_Parallel a1 l j)"
    from less.prems part d False obtain a2 t1 where c1: "?c1 = Inr (a2, t1)"
      by (cases ?c1) (auto simp: simps)
    let ?c2 = "logged (Task i r) (QuickSort_Parallel a2 i r)"
    from less.prems part d False c1 obtain t2 where c2: "?c2 = Inr (a, t2)"
      by (cases ?c2) (auto simp: simps)
    from c1 obtain t' where "QuickSort_Parallel a1 l j = Inr (a2, t')"
      by (auto simp: logged_Inr_iff)
    moreover have "nat (j - l) < nat (r - l)" using prog lr by simp
    ultimately have "unchanged_outside l j a1 a2" using less.hyps by blast
    then have f1: "unchanged_outside l r a1 a2" using prog by (auto simp: unchanged_outside_def)
    from c2 obtain t'' where "QuickSort_Parallel a2 i r = Inr (a, t'')"
      by (auto simp: logged_Inr_iff)
    moreover have "nat (r - i) < nat (r - l)" using prog lr by simp
    ultimately have "unchanged_outside i r a2 a" using less.hyps by blast
    then have f2: "unchanged_outside l r a2 a" using prog by (auto simp: unchanged_outside_def)
    from f0 f1 f2 show ?thesis by (auto simp: unchanged_outside_def)
  qed
qed

subsection \<open>The conversion of the length\<close>

lemma to_int_id: "INT_MIN \<le> v \<Longrightarrow> v \<le> INT_MAX \<Longrightarrow> to_int v = v"
  by (simp add: to_int_def INT_MIN_def INT_MAX_def signed_take_bit_int_eq_self)

section \<open>The claims\<close>




text \<open>
  C2. The claim: for every input array the sequential and the parallel sorter produce the
  same output. On the valid range \<open>2\<^sup>3\<^sup>0 .. 2\<^sup>3\<^sup>0 + 1\<close> of an array of \<open>2\<^sup>3\<^sup>0 + 2\<close>
  elements \<^verbatim>\<open>QuickSort_Parallel\<close> overflows in \<^verbatim>\<open>left + right\<close> and produces no array.
\<close>

theorem sorters_agree_counterexample:
  "QuickSort_Parallel (replicate 1073741826 7) 1073741824 1073741825 = Inl SignedOverflow"
  by (simp add: QuickSort_Parallel.simps partition_step_def c_int_def INT_MAX_def)

text \<open>
  C2, amended. For every array and every valid range with \<open>left \<le> right\<close> and
  \<open>2 * right \<le> INT_MAX\<close> (every range of an array of at most \<open>2\<^sup>3\<^sup>0\<close> elements),
  \<^verbatim>\<open>QuickSort\<close> and \<^verbatim>\<open>QuickSort_Parallel\<close> both return, and they return the same array;
  on the range \<open>0 .. length - 1\<close> these are \<^verbatim>\<open>sort_s\<close> and \<^verbatim>\<open>sort_p\<close>. The tasks of the
  parallel sorter run in program order here.
\<close>

theorem sorters_agree:
  assumes "0 \<le> left" and "left \<le> right" and "right < int (length arr)"
    and "2 * right \<le> INT_MAX"
  shows "\<exists>a t u. QuickSort arr left right = Inr (a, t) \<and>
           QuickSort_Parallel arr left right = Inr (a, u) \<and>
           (left = 0 \<and> right = int (length arr) - 1 \<longrightarrow>
              sort_s (int (length arr)) arr = Inr (a, t) \<and>
              sort_p (int (length arr)) arr = Inr (a, u))"
proof -
  from QuickSort_correct [OF assms] obtain a t where
    s: "QuickSort arr left right = Inr (a, t)" and ps: "qs_post left right arr a" by blast
  from QuickSort_Parallel_correct [OF assms] obtain b u where
    p: "QuickSort_Parallel arr left right = Inr (b, u)" and pp: "qs_post left right arr b"
    by blast
  have eq: "b = a" using qs_post_unique [OF pp ps assms(1,3)] .
  have "sort_s (int (length arr)) arr = Inr (a, t) \<and> sort_p (int (length arr)) arr = Inr (a, u)"
    if "left = 0" "right = int (length arr) - 1"
  proof -
    have "INT_MIN \<le> right" "right \<le> INT_MAX"
      using assms by (auto simp: INT_MIN_def INT_MAX_def)
    then have "to_int (int (length arr) - 1) = right"
      using that to_int_id [of right] by simp
    then show ?thesis using s p eq that by (simp add: sort_s_def sort_p_def)
  qed
  then show ?thesis using s p eq by blast
qed

theorem sorters_agree_witness:
  "(0::int) \<le> 0 \<and> (0::int) \<le> 5 \<and> 5 < int (length [5, 3, 8, 1, 9, 2 :: int]) \<and>
   2 * 5 \<le> INT_MAX \<and>
   (\<exists>a t u. QuickSort [5, 3, 8, 1, 9, 2] 0 5 = Inr (a, t) \<and>
      QuickSort_Parallel [5, 3, 8, 1, 9, 2] 0 5 = Inr (a, u) \<and>
      sort_s (int (length [5, 3, 8, 1, 9, 2 :: int])) [5, 3, 8, 1, 9, 2] = Inr (a, t) \<and>
      sort_p (int (length [5, 3, 8, 1, 9, 2 :: int])) [5, 3, 8, 1, 9, 2] = Inr (a, u)) \<and>
   map_sum id fst (sort_p 6 [5, 3, 8, 1, 9, 2]) = Inr [1, 2, 3, 5, 8, 9]"
proof -
  have h: "(0::int) \<le> 0" "(0::int) \<le> 5" "5 < int (length [5, 3, 8, 1, 9, 2 :: int])"
    "2 * 5 \<le> INT_MAX" by (simp_all add: INT_MAX_def)
  have run: "map_sum id fst (sort_p 6 [5, 3, 8, 1, 9, 2]) = Inr [1, 2, 3, 5, 8, 9]"
    by code_simp
  from sorters_agree [OF h] h run show ?thesis by auto
qed





text \<open>
  C5. For every array and indices \<open>left \<le> right\<close> with \<open>right - left < Cut_Off\<close>,
  \<^verbatim>\<open>QuickSort_Parallel\<close> does what \<^verbatim>\<open>QuickSort\<close> does on the same range: the same result,
  array and events, or the same error. The ranges of its recursive calls are below the
  cutoff too, so it never creates a task.
\<close>

theorem QuickSort_Parallel_below_cutoff:
  assumes "left \<le> right" and "right - left < Cut_Off"
  shows "QuickSort_Parallel arr left right = QuickSort arr left right"
proof -
  have "INT_MIN \<le> right - left" using assms(1) by (simp add: INT_MIN_def)
  then show ?thesis using assms(2) by (rule QuickSort_Parallel_inline)
qed

theorem QuickSort_Parallel_below_cutoff_witness:
  "(0::int) \<le> 5 \<and> 5 - 0 < Cut_Off \<and>
   QuickSort_Parallel [5, 3, 8, 1, 9, 2] 0 5 = QuickSort [5, 3, 8, 1, 9, 2] 0 5"
proof -
  have h: "(0::int) \<le> 5" "5 - 0 < Cut_Off" by (simp_all add: Cut_Off_def)
  from QuickSort_Parallel_below_cutoff [OF h] h show ?thesis by blast
qed

text \<open>
  C6. The claim: for every array and valid indices \<open>left \<le> right\<close> the partition step
  accesses the array at indices in \<open>left..right\<close> only, the pivot read
  \<^verbatim>\<open>arr[(left + right) / 2]\<close> included, and fails only on invalid indices. On the valid
  range \<open>2\<^sup>3\<^sup>0 .. 2\<^sup>3\<^sup>0 + 1\<close> of an array of \<open>2\<^sup>3\<^sup>0 + 2\<close> elements the index of the
  pivot read is not defined: \<^verbatim>\<open>left + right\<close> is above \<^verbatim>\<open>INT_MAX\<close>, and the step fails.
\<close>

theorem partition_accesses_in_range_counterexample:
  "partition_step (replicate 1073741826 3) 1073741824 1073741825 = Inl SignedOverflow"
  by (simp add: partition_step_def c_int_def INT_MAX_def)

text \<open>
  C6, amended. For every array and valid indices \<open>left \<le> right\<close> whose sum
  \<^verbatim>\<open>left + right\<close> is at most \<^verbatim>\<open>INT_MAX\<close>, the only sum the step computes, the
  partition step returns, and every access it has made, the pivot read
  \<^verbatim>\<open>arr[(left + right) / 2]\<close> first and then the reads and writes at \<^verbatim>\<open>i\<close> and \<^verbatim>\<open>j\<close>, is
  at an index in \<open>left..right\<close>. The step makes no call; it leaves the length and every
  element outside \<open>left..right\<close> as they were, and the array is a permutation of the one
  before: its writes are the swaps.
\<close>

theorem partition_accesses_in_range:
  assumes "0 \<le> left" and "left \<le> right" and "right < int (length arr)"
    and "left + right \<le> INT_MAX"
  shows "\<exists>a i j t. partition_step arr left right = Inr (a, i, j, t) \<and>
           set (accesses t) \<subseteq> {left..right} \<and> hd t = Read (c_div (left + right) 2) \<and>
           calls t = [] \<and> length a = length arr \<and>
           (\<forall>n. int n < left \<or> right < int n \<longrightarrow> a ! n = arr ! n) \<and> mset a = mset arr"
proof -
  have "left + right \<le> INT_MAX \<or> (\<exists>res. partition_step arr left right = Inr res)"
    using assms(4) by simp
  from partition_correct [OF assms(1-3) this]
  obtain a i j t' where
    run: "partition_step arr left right = Inr (a, i, j, Read (c_div (left + right) 2) # t')" and
    m: "left \<le> c_div (left + right) 2" "c_div (left + right) 2 \<le> right" and
    post: "part_post left right (arr ! nat (c_div (left + right) 2)) arr left right a i j t'"
    by blast
  note P = part_postD [OF post]
  have "set (accesses (Read (c_div (left + right) 2) # t')) \<subseteq> {left..right}"
    using P(16) m by simp
  moreover have "calls (Read (c_div (left + right) 2) # t') = []" using P(17) by simp
  moreover have "\<forall>n. int n < left \<or> right < int n \<longrightarrow> a ! n = arr ! n" using P(13) by blast
  ultimately show ?thesis using run P(11,12) by auto
qed

theorem partition_accesses_in_range_witness:
  "(0::int) \<le> 1 \<and> (1::int) \<le> 3 \<and> 3 < int (length [9, 5, 3, 8, 0 :: int]) \<and>
   1 + 3 \<le> INT_MAX \<and>
   partition_step [9, 5, 3, 8, 0] 1 3 =
     Inr ([9, 3, 5, 8, 0], 2, 1, [Read 2, Read 1, Read 3, Read 2, Read 1, Read 2, Write 1, Write 2]) \<and>
   set (accesses [Read 2, Read 1, Read 3, Read 2, Read 1, Read 2, Write 1, Write 2])
     \<subseteq> {1..3} \<and>
   [9, 3, 5, 8, 0 :: int] ! 0 = [9, 5, 3, 8, 0] ! 0 \<and>
   [9, 3, 5, 8, 0 :: int] ! 4 = [9, 5, 3, 8, 0] ! 4"
proof -
  have h: "(0::int) \<le> 1" "(1::int) \<le> 3" "3 < int (length [9, 5, 3, 8, 0 :: int])"
    "1 + 3 \<le> INT_MAX" by (simp_all add: INT_MAX_def)
  have run: "partition_step [9, 5, 3, 8, 0] 1 3 =
     Inr ([9, 3, 5, 8, 0], 2, 1, [Read 2, Read 1, Read 3, Read 2, Read 1, Read 2, Write 1, Write 2])"
    by code_simp
  from partition_accesses_in_range [OF h] h run show ?thesis by simp
qed

text \<open>
  C7. The claim: called with \<open>left = right\<close>, the partition step returns with
  \<open>i = j = left\<close> and changes no element. At the array \<open>[5]\<close> the step returns
  \<open>i = 1\<close> and \<open>j = -1\<close>: the loop body runs once, the two scans stop where they
  start, the element is swapped with itself, and \<open>i\<close> and \<open>j\<close> each move one step.
\<close>

theorem partition_left_eq_right_counterexample:
  "partition_step [5] 0 0 =
     Inr ([5], 1, - 1, [Read 0, Read 0, Read 0, Read 0, Read 0, Write 0, Write 0])"
  by code_simp

text \<open>
  C7, amended. Called with \<open>left = right\<close>, a partition step that returns has run the
  body of its loop once, swapping the element with itself: no element of the array is
  changed, and the final scan indices are \<open>i = left + 1\<close> and \<open>j = left - 1\<close>. Its
  accesses are all at \<open>left\<close>: the pivot read, one read by each scan, and the swap.
\<close>

theorem partition_left_eq_right:
  assumes "partition_step arr left left = Inr (a, i, j, t)"
  shows "a = arr \<and> i = left + 1 \<and> j = left - 1 \<and>
         t = [Read left, Read left, Read left, Read left, Read left, Write left, Write left]"
proof -
  from assms have "c_int (left + left) = Inr (left + left)"
    by (auto simp: partition_step_def c_int_def split: sum.splits if_splits)
  moreover from this assms have "rd arr left = Inr (arr ! nat left)"
    by (auto simp: partition_step_def c_div_double rd_def split: sum.splits if_splits)
  ultimately have "0 \<le> left" "left < int (length arr)" "2 * left \<le> INT_MAX"
    by (auto simp: c_int_Inr rd_Inr)
  from partition_single [OF this] assms show ?thesis by simp
qed

theorem partition_left_eq_right_witness:
  "partition_step [4, 7, 2] 1 1 =
     Inr ([4, 7, 2], 2, 0, [Read 1, Read 1, Read 1, Read 1, Read 1, Write 1, Write 1]) \<and>
   [4, 7, 2] = [4, 7, 2 :: int] \<and> (2::int) = 1 + 1 \<and> (0::int) = 1 - 1"
proof -
  have run: "partition_step [4, 7, 2] 1 1 =
     Inr ([4, 7, 2], 2, 0, [Read 1, Read 1, Read 1, Read 1, Read 1, Write 1, Write 1])"
    by code_simp
  from partition_left_eq_right [OF run] run show ?thesis by simp
qed

text \<open>
  C8. The claim: sorting an empty array and sorting an array of one element return the
  array unchanged, with no recursion, no task and no array access out of range. On the
  empty array \<^verbatim>\<open>rightStart\<close> is \<open>-1\<close>, and the first statement of \<^verbatim>\<open>QuickSort\<close>
  reads \<^verbatim>\<open>arr[(0 + -1) / 2]\<close>, which is \<^verbatim>\<open>arr[0]\<close>: an access out of range.
\<close>

theorem sort_s_empty_counterexample:
  "sort_s 0 [] = Inl (OutOfRange 0)"
  by code_simp

text \<open>
  C8, amended. Sorting an array of one element with \<^verbatim>\<open>sort_s\<close> or with \<^verbatim>\<open>sort_p\<close>
  returns the array unchanged; the run makes no recursive call and creates no task, and
  its accesses are all at index 0. On the empty array both read \<^verbatim>\<open>arr[0]\<close>, which is
  out of range, as their first access.
\<close>

theorem sort_one_element_and_empty:
  "sort_s 1 [x] = Inr ([x], [Read 0, Read 0, Read 0, Read 0, Read 0, Write 0, Write 0]) \<and>
   sort_p 1 [x] = Inr ([x], [Read 0, Read 0, Read 0, Read 0, Read 0, Write 0, Write 0]) \<and>
   calls [Read 0, Read 0, Read 0, Read 0, Read 0, Write 0, Write 0] = [] \<and>
   sort_s 0 [] = Inl (OutOfRange 0) \<and>
   sort_p 0 [] = Inl (OutOfRange 0)"
proof -
  have "sort_s 1 [x] = Inr ([x], [Read 0, Read 0, Read 0, Read 0, Read 0, Write 0, Write 0])"
    using QuickSort_single [of 0 "[x]"] by (simp add: sort_s_def to_int_def INT_MAX_def)
  moreover
  have "sort_p 1 [x] = Inr ([x], [Read 0, Read 0, Read 0, Read 0, Read 0, Write 0, Write 0])"
    using QuickSort_Parallel_single [of 0 "[x]"] by (simp add: sort_p_def to_int_def INT_MAX_def)
  moreover have "sort_s 0 [] = Inl (OutOfRange 0)"
    by code_simp
  moreover have "sort_p 0 [] = Inl (OutOfRange 0)"
    by code_simp
  ultimately show ?thesis by simp
qed

text \<open>
  C10. Whatever the array and the indices, when \<^verbatim>\<open>QuickSort\<close> or \<^verbatim>\<open>QuickSort_Parallel\<close>
  called on \<open>left..right\<close> returns, the array has the length it had and every element at
  an index outside \<open>left..right\<close> is the one that was there: the whole recursion writes
  inside the range it was called on.
\<close>

theorem sorters_leave_outside_unchanged:
  "(QuickSort arr left right = Inr (a, t) \<longrightarrow>
      length a = length arr \<and> (\<forall>n. int n < left \<or> right < int n \<longrightarrow> a ! n = arr ! n)) \<and>
   (QuickSort_Parallel arr left right = Inr (b, u) \<longrightarrow>
      length b = length arr \<and> (\<forall>n. int n < left \<or> right < int n \<longrightarrow> b ! n = arr ! n))"
  using QuickSort_frame [of arr left right a t] QuickSort_Parallel_frame [of arr left right b u]
  by (simp add: unchanged_outside_def)

theorem sorters_leave_outside_unchanged_witness:
  "QuickSort [9, 5, 3, 8, 0] 1 3 =
     Inr ([9, 3, 5, 8, 0],
       [Read 2, Read 1, Read 3, Read 2, Read 1, Read 2, Write 1, Write 2, Call 2 3,
        Read 2, Read 2, Read 3, Read 2, Read 2, Read 2, Write 2, Write 2]) \<and>
   QuickSort_Parallel [9, 5, 3, 8, 0] 1 3 =
     Inr ([9, 3, 5, 8, 0],
       [Read 2, Read 1, Read 3, Read 2, Read 1, Read 2, Write 1, Write 2, Call 2 3,
        Read 2, Read 2, Read 3, Read 2, Read 2, Read 2, Write 2, Write 2]) \<and>
   length [9, 3, 5, 8, 0 :: int] = length [9, 5, 3, 8, 0 :: int] \<and>
   [9, 3, 5, 8, 0 :: int] ! 0 = [9, 5, 3, 8, 0] ! 0 \<and>
   [9, 3, 5, 8, 0 :: int] ! 4 = [9, 5, 3, 8, 0] ! 4"
proof -
  have s: "QuickSort [9, 5, 3, 8, 0] 1 3 =
     Inr ([9, 3, 5, 8, 0],
       [Read 2, Read 1, Read 3, Read 2, Read 1, Read 2, Write 1, Write 2, Call 2 3,
        Read 2, Read 2, Read 3, Read 2, Read 2, Read 2, Write 2, Write 2])"
    by code_simp
  have p: "QuickSort_Parallel [9, 5, 3, 8, 0] 1 3 =
     Inr ([9, 3, 5, 8, 0],
       [Read 2, Read 1, Read 3, Read 2, Read 1, Read 2, Write 1, Write 2, Call 2 3,
        Read 2, Read 2, Read 3, Read 2, Read 2, Read 2, Write 2, Write 2])"
    by code_simp
  from sorters_leave_outside_unchanged [of "[9, 5, 3, 8, 0]" 1 3 "[9, 3, 5, 8, 0]" _
      "[9, 3, 5, 8, 0]"] s p
  show ?thesis by simp
qed

end
